theory Spec2Isabelle
  imports Complex_Main "HOL-Library.AList" "HOL-Library.Multiset" "HOL-Library.Word"
begin

section \<open>Values shared by the components\<close>

text \<open>
  A JavaScript string is a sequence of UTF-16 code units. \<open>str\<close> writes one from an
  ASCII literal.
\<close>

type_synonym jstring = "nat list"

abbreviation str :: "string \<Rightarrow> jstring" where
  "str s \<equiv> map of_char s"

text \<open>
  Payloads, parsed messages, handler results and human responses are untyped (\<open>any\<close>)
  in the source. They are modelled by a JSON value; object fields keep their order.
  Numbers are integers.
\<close>

datatype json =
    JNull
  | JBool bool
  | JNum int
  | JStr jstring
  | JArr "json list"
  | JObj "(jstring \<times> json) list"

section \<open>HumanInTheLoopCoordinator (src/human-loop/coordinator.ts)\<close>

datatype req_type = Approval | Decision | Input | Review

datatype priority = High | Medium | Low

datatype autonomy = Full | Supervised | Manual

text \<open>
  The fields of a message that \<open>handleDecision\<close> and \<open>requestHumanAttention\<close> read.
  \<open>confidence\<close> may be absent: \<open>undefined < 0.8\<close> is false in the source.
\<close>

record agent_msg =
  msg_agentId :: string
  msg_decisionType :: string
  msg_decision :: json
  msg_confidence :: "real option"
  msg_urgent :: bool

text \<open>
  Request ids come from \<open>crypto.randomUUID()\<close>; the model draws them from a counter,
  which is what makes them unique.
\<close>

record HumanRequest =
  hr_id :: nat
  hr_type :: req_type
  hr_priority :: priority
  hr_from :: string
  hr_context :: agent_msg
  hr_timestamp :: int
  hr_timeout :: "int option"

record AgentPolicy =
  autonomyLevel :: autonomy
  requiresApprovalFor :: "string list"
  notifyHumanFor :: "string list"

text \<open>The two closures the coordinator registers with \<open>this.once('response:<id>', ...)\<close>.\<close>

datatype waiter = ApprovalWaiter | AttentionWaiter

datatype coord_event =
    HumanRequestEv HumanRequest
  | AgentAutonomousEv string json "real option"
  | ResponseEv nat json

text \<open>
  \<open>pendingRequests\<close> is a JavaScript \<open>Map\<close>: an association list in insertion order,
  written with \<open>AList.update\<close> (\<open>set\<close>) and \<open>AList.delete\<close> (\<open>delete\<close>).
  \<open>waiters\<close> are the one-shot listeners on \<open>response:<id>\<close>, \<open>timers\<close> the armed
  \<open>setTimeout\<close> handles with their delay, \<open>settled\<close> the values the returned promises
  were resolved with (a promise keeps its first settlement).
\<close>

record coordinator =
  pendingRequests :: "(nat \<times> HumanRequest) list"
  policies :: "string \<rightharpoonup> AgentPolicy"
  waiters :: "nat \<rightharpoonup> waiter"
  timers :: "nat \<rightharpoonup> int"
  settled :: "nat \<rightharpoonup> json"
  emitted :: "coord_event list"
  next_id :: nat

definition humanAttentionThreshold :: real where
  "humanAttentionThreshold = 8 / 10"

definition new_coordinator :: coordinator where
  "new_coordinator =
     \<lparr>pendingRequests = [], policies = Map.empty, waiters = Map.empty, timers = Map.empty,
      settled = Map.empty, emitted = [], next_id = 0\<rparr>"

text \<open>What an async method of the coordinator hands back: a value, or the promise of request \<open>i\<close>.\<close>

datatype outcome = Resolved json | Awaiting nat

definition resolve :: "nat \<Rightarrow> json \<Rightarrow> coordinator \<Rightarrow> coordinator" where
  "resolve i v s = (case settled s i of None \<Rightarrow> s\<lparr>settled := (settled s)(i \<mapsto> v)\<rparr> | Some _ \<Rightarrow> s)"

definition timeout_response :: json where
  "timeout_response = JObj [(str ''approved'', JBool False), (str ''reason'', JStr (str ''timeout''))]"

definition setAgentPolicy :: "string \<Rightarrow> AgentPolicy \<Rightarrow> coordinator \<Rightarrow> coordinator" where
  "setAgentPolicy a p s = s\<lparr>policies := (policies s)(a \<mapsto> p)\<rparr>"

definition requestHumanApproval :: "agent_msg \<Rightarrow> int \<Rightarrow> coordinator \<Rightarrow> outcome \<times> coordinator" where
  "requestHumanApproval msg now s =
     (let i = next_id s;
          request = \<lparr>hr_id = i, hr_type = Approval, hr_priority = High, hr_from = msg_agentId msg,
                     hr_context = msg, hr_timestamp = now, hr_timeout = Some 30000\<rparr>
      in (Awaiting i,
          s\<lparr>pendingRequests := AList.update i request (pendingRequests s),
            emitted := emitted s @ [HumanRequestEv request],
            timers := (timers s)(i \<mapsto> 30000),
            waiters := (waiters s)(i \<mapsto> ApprovalWaiter),
            next_id := Suc i\<rparr>))"

definition requestHumanReview :: "agent_msg \<Rightarrow> int \<Rightarrow> coordinator \<Rightarrow> outcome \<times> coordinator" where
  "requestHumanReview msg now s =
     (let i = next_id s;
          request = \<lparr>hr_id = i, hr_type = Review, hr_priority = Medium, hr_from = msg_agentId msg,
                     hr_context = msg, hr_timestamp = now, hr_timeout = None\<rparr>
      in (Resolved (JObj [(str ''approved'', JBool True), (str ''flaggedForReview'', JBool True),
                          (str ''requestId'', JNum (int i))]),
          s\<lparr>pendingRequests := AList.update i request (pendingRequests s),
            emitted := emitted s @ [HumanRequestEv request],
            next_id := Suc i\<rparr>))"

definition requestHumanAttention :: "agent_msg \<Rightarrow> int \<Rightarrow> coordinator \<Rightarrow> outcome \<times> coordinator" where
  "requestHumanAttention msg now s =
     (let i = next_id s;
          request = \<lparr>hr_id = i, hr_type = Input,
                     hr_priority = (if msg_urgent msg then High else Medium), hr_from = msg_agentId msg,
                     hr_context = msg, hr_timestamp = now, hr_timeout = None\<rparr>
      in (Awaiting i,
          s\<lparr>pendingRequests := AList.update i request (pendingRequests s),
            emitted := emitted s @ [HumanRequestEv request],
            waiters := (waiters s)(i \<mapsto> AttentionWaiter),
            next_id := Suc i\<rparr>))"

definition needs_approval :: "coordinator \<Rightarrow> agent_msg \<Rightarrow> bool" where
  "needs_approval s msg =
     (case policies s (msg_agentId msg) of
        None \<Rightarrow> False
      | Some policy \<Rightarrow> msg_decisionType msg \<in> set (requiresApprovalFor policy))"

definition below_threshold :: "agent_msg \<Rightarrow> bool" where
  "below_threshold msg =
     (case msg_confidence msg of None \<Rightarrow> False | Some c \<Rightarrow> c < humanAttentionThreshold)"

definition handleDecision :: "agent_msg \<Rightarrow> int \<Rightarrow> coordinator \<Rightarrow> outcome \<times> coordinator" where
  "handleDecision msg now s =
     (if needs_approval s msg then requestHumanApproval msg now s
      else if below_threshold msg then requestHumanReview msg now s
      else (Resolved (JObj [(str ''approved'', JBool True), (str ''autonomous'', JBool True)]),
            s\<lparr>emitted := emitted s @ [AgentAutonomousEv (msg_agentId msg) (msg_decision msg) (msg_confidence msg)]\<rparr>))"

text \<open>
  The timer callback of \<open>requestHumanApproval\<close>. It runs only while the timer is armed:
  the response listener disarms it with \<open>clearTimeout\<close>. The \<open>once\<close> listener is not
  removed on this path in the source, so the waiter stays.
\<close>

definition timeout_fires :: "nat \<Rightarrow> coordinator \<Rightarrow> coordinator" where
  "timeout_fires i s =
     (case timers s i of
        None \<Rightarrow> s
      | Some _ \<Rightarrow>
          resolve i timeout_response
            (s\<lparr>timers := (timers s)(i := None),
               pendingRequests := AList.delete i (pendingRequests s)\<rparr>))"

text \<open>The body of the listener registered for \<open>response:<id>\<close>, by the method that registered it.\<close>

definition run_waiter :: "waiter \<Rightarrow> nat \<Rightarrow> json \<Rightarrow> coordinator \<Rightarrow> coordinator" where
  "run_waiter w i response s =
     (case w of
        ApprovalWaiter \<Rightarrow>
          resolve i response
            (s\<lparr>timers := (timers s)(i := None),
               pendingRequests := AList.delete i (pendingRequests s)\<rparr>)
      | AttentionWaiter \<Rightarrow>
          resolve i response (s\<lparr>pendingRequests := AList.delete i (pendingRequests s)\<rparr>))"

definition respondToRequest :: "nat \<Rightarrow> json \<Rightarrow> coordinator \<Rightarrow> coordinator" where
  "respondToRequest requestId response s =
     (if map_of (pendingRequests s) requestId \<noteq> None then
        (let s1 = s\<lparr>emitted := emitted s @ [ResponseEv requestId response]\<rparr>
         in case waiters s1 requestId of
              None \<Rightarrow> s1
            | Some w \<Rightarrow> run_waiter w requestId response (s1\<lparr>waiters := (waiters s1)(requestId := None)\<rparr>))
      else s)"

text \<open>
  \<open>Array.prototype.sort\<close> with a comparator is a stable comparison sort: an element
  moves in front of another only when the comparator is positive for the pair in the
  order they stand. It is modelled by a stable insertion sort.
\<close>

fun insert_by :: "('a \<Rightarrow> 'a \<Rightarrow> int) \<Rightarrow> 'a \<Rightarrow> 'a list \<Rightarrow> 'a list" where
  "insert_by cmp x [] = [x]"
| "insert_by cmp x (y # ys) = (if cmp x y \<le> 0 then x # y # ys else y # insert_by cmp x ys)"

fun sort_by :: "('a \<Rightarrow> 'a \<Rightarrow> int) \<Rightarrow> 'a list \<Rightarrow> 'a list" where
  "sort_by cmp [] = []"
| "sort_by cmp (x # xs) = insert_by cmp x (sort_by cmp xs)"

fun priorityWeight :: "priority \<Rightarrow> int" where
  "priorityWeight High = 3"
| "priorityWeight Medium = 2"
| "priorityWeight Low = 1"

definition compare_requests :: "HumanRequest \<Rightarrow> HumanRequest \<Rightarrow> int" where
  "compare_requests a b =
     (let aDiff = priorityWeight (hr_priority a); bDiff = priorityWeight (hr_priority b)
      in if aDiff \<noteq> bDiff then bDiff - aDiff else hr_timestamp a - hr_timestamp b)"

definition getPendingRequests :: "coordinator \<Rightarrow> HumanRequest list" where
  "getPendingRequests s = sort_by compare_requests (map snd (pendingRequests s))"

text \<open>The order the specification asks for: higher priority first, then older first.\<close>

definition listed_before :: "HumanRequest \<Rightarrow> HumanRequest \<Rightarrow> bool" where
  "listed_before a b =
     (priorityWeight (hr_priority b) < priorityWeight (hr_priority a)
      \<or> (hr_priority a = hr_priority b \<and> hr_timestamp a \<le> hr_timestamp b))"

text \<open>The calls and callbacks that can reach a coordinator.\<close>

datatype coord_op =
    SetPolicy string AgentPolicy
  | HandleDecision agent_msg int
  | RequestAttention agent_msg int
  | Respond nat json
  | TimeoutFires nat

fun coord_step :: "coord_op \<Rightarrow> coordinator \<Rightarrow> coordinator" where
  "coord_step (SetPolicy a p) s = setAgentPolicy a p s"
| "coord_step (HandleDecision msg now) s = snd (handleDecision msg now s)"
| "coord_step (RequestAttention msg now) s = snd (requestHumanAttention msg now s)"
| "coord_step (Respond i r) s = respondToRequest i r s"
| "coord_step (TimeoutFires i) s = timeout_fires i s"

fun coord_run :: "coord_op list \<Rightarrow> coordinator \<Rightarrow> coordinator" where
  "coord_run [] s = s"
| "coord_run (x # xs) s = coord_run xs (coord_step x s)"

definition example_msg :: agent_msg where
  "example_msg =
     \<lparr>msg_agentId = ''a1'', msg_decisionType = ''deploy'', msg_decision = JStr (str ''ship''),
      msg_confidence = Some (1 / 2), msg_urgent = False\<rparr>"

definition example_request :: "nat \<Rightarrow> priority \<Rightarrow> int \<Rightarrow> HumanRequest" where
  "example_request i p t =
     \<lparr>hr_id = i, hr_type = Decision, hr_priority = p, hr_from = ''a1'',
      hr_context = example_msg, hr_timestamp = t, hr_timeout = None\<rparr>"

text \<open>Predicates on coordinator states used to state and prove the properties below.\<close>

definition fresh_from :: "coordinator \<Rightarrow> bool" where
  "fresh_from s = (\<forall>j. next_id s \<le> j \<longrightarrow>
      waiters s j = None \<and> timers s j = None \<and> settled s j = None \<and> map_of (pendingRequests s) j = None)"

text \<open>A review request \<open>r\<close> with id \<open>i\<close> is open: pending, with no listener and no timer.\<close>

definition review_open :: "nat \<Rightarrow> HumanRequest \<Rightarrow> coordinator \<Rightarrow> bool" where
  "review_open i r s = (map_of (pendingRequests s) i = Some r \<and> waiters s i = None \<and> timers s i = None \<and> i < next_id s)"





section \<open>ClaudeMultiplexer (src/multiplex/multiplexer.ts)\<close>

datatype msg_type = RequestT | ResponseT | StreamT | ErrorT

record AgentMessage =
  am_agentId :: string
  am_type :: msg_type
  am_data :: json
  am_timestamp :: int
  am_correlationId :: "string option"

record AgentOptions =
  opt_id :: "string option"
  opt_args :: "string list"

datatype mux_error =
    CapacityExceeded nat
  | AgentNotFound string
  | ListenerThrew string

datatype mux_event =
    AgentSpawn string
  | AgentExit string "int option"
  | MessageSend AgentMessage

text \<open>
  A child process as the multiplexer sees it: the agent id its \<open>exit\<close> listener closes
  over, the number of \<open>kill()\<close> calls it received, whether it has exited, and the lines
  written to its standard input.
\<close>

record child =
  owner :: string
  kills :: nat
  exited :: bool
  stdin :: "json list"

text \<open>
  \<open>agents\<close> and \<open>messageBuffer\<close> are \<open>Map\<close>s keyed by agent id; the value of \<open>agents\<close> is
  the \<open>ChildProcess\<close>, here its index in \<open>children\<close>, the list of all processes started
  so far. \<open>maxConcurrent\<close> is a count of agents.
\<close>

record mux =
  maxConcurrent :: nat
  agents :: "(string \<times> nat) list"
  messageBuffer :: "(string \<times> AgentMessage list) list"
  children :: "child list"
  mux_emitted :: "mux_event list"

definition new_mux :: "nat \<Rightarrow> mux" where
  "new_mux n =
     \<lparr>maxConcurrent = n, agents = [], messageBuffer = [], children = [], mux_emitted = []\<rparr>"

text \<open>
  \<open>options.id || randomUUID()\<close>: an absent or empty id is falsy. The UUID drawn by the
  call is an argument of the model.
\<close>

definition choose_id :: "AgentOptions \<Rightarrow> string \<Rightarrow> string" where
  "choose_id options uuid =
     (case opt_id options of None \<Rightarrow> uuid | Some i \<Rightarrow> if i = [] then uuid else i)"

definition spawnAgent :: "AgentOptions \<Rightarrow> string \<Rightarrow> mux \<Rightarrow> (mux_error + string) \<times> mux" where
  "spawnAgent options uuid s =
     (let agentId = choose_id options uuid
      in if maxConcurrent s \<le> length (agents s) then (Inl (CapacityExceeded (maxConcurrent s)), s)
         else
           (let agent = length (children s)
            in (Inr agentId,
                s\<lparr>children := children s @ [\<lparr>owner = agentId, kills = 0, exited = False, stdin = []\<rparr>],
                  agents := AList.update agentId agent (agents s),
                  messageBuffer := AList.update agentId [] (messageBuffer s),
                  mux_emitted := mux_emitted s @ [AgentSpawn agentId]\<rparr>)))"

text \<open>The \<open>exit\<close> listener that \<open>spawnAgent\<close> registers on the child; a process exits once.\<close>

definition child_exit :: "nat \<Rightarrow> int option \<Rightarrow> mux \<Rightarrow> mux" where
  "child_exit h code s =
     (if h < length (children s) \<and> \<not> exited (children s ! h) then
        (let agentId = owner (children s ! h)
         in s\<lparr>children := (children s)[h := (children s ! h)\<lparr>exited := True\<rparr>],
              agents := AList.delete agentId (agents s),
              messageBuffer := AList.delete agentId (messageBuffer s),
              mux_emitted := mux_emitted s @ [AgentExit agentId code]\<rparr>)
      else s)"

definition kill :: "nat \<Rightarrow> child list \<Rightarrow> child list" where
  "kill h cs = (if h < length cs then cs[h := (cs ! h)\<lparr>kills := Suc (kills (cs ! h))\<rparr>] else cs)"

definition killAgent :: "string \<Rightarrow> mux \<Rightarrow> mux" where
  "killAgent agentId s =
     (case map_of (agents s) agentId of
        None \<Rightarrow> s
      | Some agent \<Rightarrow>
          s\<lparr>children := kill agent (children s), agents := AList.delete agentId (agents s)\<rparr>)"

definition killAll :: "mux \<Rightarrow> mux" where
  "killAll s =
     s\<lparr>children := fold kill (map snd (agents s)) (children s), agents := [], messageBuffer := []\<rparr>"








text \<open>The calls and callbacks that change the agent table.\<close>

datatype mux_op =
    Spawn AgentOptions string
  | Kill string
  | KillAll
  | ChildExit nat "int option"

fun mux_step :: "mux_op \<Rightarrow> mux \<Rightarrow> mux" where
  "mux_step (Spawn options uuid) s = snd (spawnAgent options uuid s)"
| "mux_step (Kill a) s = killAgent a s"
| "mux_step KillAll s = killAll s"
| "mux_step (ChildExit h code) s = child_exit h code s"

fun mux_run :: "mux_op list \<Rightarrow> mux \<Rightarrow> mux" where
  "mux_run [] s = s"
| "mux_run (x # xs) s = mux_run xs (mux_step x s)"

definition with_id :: "string \<Rightarrow> AgentOptions" where
  "with_id a = \<lparr>opt_id = Some a, opt_args = []\<rparr>"



section \<open>PeerAgent (src/agents/peer-agent.ts)\<close>

text \<open>
  The event-bus node of \<open>@happen/core\<close> is an external capability; \<open>node.emit\<close> is
  modelled by the list of events handed to it.
\<close>

datatype bus_event =
    PeerAnnounce string string
  | PeerLeave string

record peer =
  nodeId :: string
  peer_agentId :: string

definition shutdown :: "peer \<Rightarrow> mux \<times> bus_event list \<Rightarrow> mux \<times> bus_event list" where
  "shutdown p w =
     (let m = killAgent (peer_agentId p) (fst w)
      in (m, snd w @ [PeerLeave (nodeId p)]))"

text \<open>Concrete instances used below.\<close>

definition two_agents :: mux where
  "two_agents = mux_run [Spawn (with_id ''a'') ''u1'', Spawn (with_id ''b'') ''u2''] (new_mux 5)"

definition peer_a :: peer where
  "peer_a = \<lparr>nodeId = ''n1'', peer_agentId = ''a''\<rparr>"

section \<open>JavaScript built-ins used by the stream splitter\<close>

subsection \<open>Property access, truthiness\<close>

text \<open>
  \<open>msg.name\<close>: \<open>None\<close> is \<open>undefined\<close>. Reading a property of a number, a string, a
  boolean or an array yields \<open>undefined\<close> for the names used here; of \<open>null\<close> it throws,
  which the callers check first.
\<close>

fun field :: "json \<Rightarrow> jstring \<Rightarrow> json option" where
  "field (JObj kvs) name = map_of kvs name"
| "field _ name = None"

fun truthy :: "json option \<Rightarrow> bool" where
  "truthy None = False"
| "truthy (Some JNull) = False"
| "truthy (Some (JBool b)) = b"
| "truthy (Some (JNum n)) = (n \<noteq> 0)"
| "truthy (Some (JStr s)) = (s \<noteq> [])"
| "truthy (Some (JArr _)) = True"
| "truthy (Some (JObj _)) = True"

text \<open>\<open>a || b\<close> where \<open>b\<close> is a truthy default.\<close>

definition or_else :: "json option \<Rightarrow> json \<Rightarrow> json" where
  "or_else a b = (case a of Some v \<Rightarrow> if truthy a then v else b | None \<Rightarrow> b)"

subsection \<open>\<open>JSON.stringify\<close>\<close>

fun digits :: "nat \<Rightarrow> jstring" where
  "digits n = (if n < 10 then [48 + n] else digits (n div 10) @ [48 + n mod 10])"

definition hex_digit :: "nat \<Rightarrow> nat" where
  "hex_digit d = (if d < 10 then 48 + d else 87 + d)"

definition u_escape :: "nat \<Rightarrow> jstring" where
  "u_escape c =
     [92, 117, hex_digit (c div 4096 mod 16), hex_digit (c div 256 mod 16),
      hex_digit (c div 16 mod 16), hex_digit (c mod 16)]"

definition is_high_surrogate :: "nat \<Rightarrow> bool" where
  "is_high_surrogate c = (55296 \<le> c \<and> c \<le> 56319)"

definition is_low_surrogate :: "nat \<Rightarrow> bool" where
  "is_low_surrogate c = (56320 \<le> c \<and> c \<le> 57343)"

text \<open>
  The characters of a quoted string: the double quote (34) and the backslash (92) get
  a backslash, control
  characters their short or \<open>\u\<close> escape, lone surrogates a \<open>\u\<close> escape.
\<close>

fun escape :: "jstring \<Rightarrow> jstring" where
  "escape [] = []"
| "escape (c # cs) =
     (if c = 34 then [92, 34] @ escape cs
      else if c = 92 then [92, 92] @ escape cs
      else if c = 8 then [92, 98] @ escape cs
      else if c = 12 then [92, 102] @ escape cs
      else if c = 10 then [92, 110] @ escape cs
      else if c = 13 then [92, 114] @ escape cs
      else if c = 9 then [92, 116] @ escape cs
      else if c < 32 then u_escape c @ escape cs
      else if is_high_surrogate c then
        (case cs of
           [] \<Rightarrow> u_escape c
         | d # ds \<Rightarrow> if is_low_surrogate d then c # d # escape ds else u_escape c @ escape cs)
      else if is_low_surrogate c then u_escape c @ escape cs
      else c # escape cs)"

definition quote :: "jstring \<Rightarrow> jstring" where
  "quote s = [34] @ escape s @ [34]"

fun join :: "jstring list \<Rightarrow> jstring" where
  "join [] = []"
| "join [x] = x"
| "join (x # y # ys) = x @ [44] @ join (y # ys)"

fun stringify :: "json \<Rightarrow> jstring" where
  "stringify JNull = str ''null''"
| "stringify (JBool b) = (if b then str ''true'' else str ''false'')"
| "stringify (JNum n) = (if n < 0 then [45] @ digits (nat (- n)) else digits (nat n))"
| "stringify (JStr s) = quote s"
| "stringify (JArr xs) = [91] @ join (map stringify xs) @ [93]"
| "stringify (JObj kvs) = [123] @ join (map (\<lambda>kv. quote (fst kv) @ [58] @ stringify (snd kv)) kvs) @ [125]"

text \<open>\<open>JSON.stringify(x) + '\n'\<close>, where \<open>x\<close> may be \<open>undefined\<close>.\<close>

definition stringify_line :: "json option \<Rightarrow> jstring" where
  "stringify_line x = (case x of None \<Rightarrow> str ''undefined'' | Some v \<Rightarrow> stringify v) @ [10]"

subsection \<open>\<open>Buffer.toString()\<close>: UTF-8 decoding\<close>

text \<open>
  An ill-formed or truncated sequence decodes to U+FFFD (65533), and decoding resumes at
  the byte that broke it. A code point above U+FFFF becomes a surrogate pair.
\<close>

definition continuation :: "nat \<Rightarrow> bool" where
  "continuation c = (128 \<le> c \<and> c \<le> 191)"

fun utf8_decode :: "nat list \<Rightarrow> jstring" where
  "utf8_decode [] = []"
| "utf8_decode (b # bs) =
     (if b < 128 then b # utf8_decode bs
      else if 194 \<le> b \<and> b \<le> 223 then
        (case bs of
           [] \<Rightarrow> [65533]
         | c # cs \<Rightarrow>
             if continuation c then ((b - 192) * 64 + (c - 128)) # utf8_decode cs
             else 65533 # utf8_decode bs)
      else if 224 \<le> b \<and> b \<le> 239 then
        (case bs of
           [] \<Rightarrow> [65533]
         | c # cs \<Rightarrow>
             if (if b = 224 then 160 else 128) \<le> c \<and> c \<le> (if b = 237 then 159 else 191) then
               (case cs of
                  [] \<Rightarrow> [65533]
                | d # ds \<Rightarrow>
                    if continuation d then
                      ((b - 224) * 4096 + (c - 128) * 64 + (d - 128)) # utf8_decode ds
                    else 65533 # utf8_decode cs)
             else 65533 # utf8_decode bs)
      else if 240 \<le> b \<and> b \<le> 244 then
        (case bs of
           [] \<Rightarrow> [65533]
         | c # cs \<Rightarrow>
             if (if b = 240 then 144 else 128) \<le> c \<and> c \<le> (if b = 244 then 143 else 191) then
               (case cs of
                  [] \<Rightarrow> [65533]
                | d # ds \<Rightarrow>
                    if continuation d then
                      (case ds of
                         [] \<Rightarrow> [65533]
                       | e # es \<Rightarrow>
                           if continuation e then
                             (let cp = (b - 240) * 262144 + (c - 128) * 4096 + (d - 128) * 64 + (e - 128)
                              in [55296 + (cp - 65536) div 1024, 56320 + (cp - 65536) mod 1024]
                                 @ utf8_decode es)
                           else 65533 # utf8_decode ds)
                    else 65533 # utf8_decode cs)
             else 65533 # utf8_decode bs)
      else 65533 # utf8_decode bs)"

definition toString :: "8 word list \<Rightarrow> jstring" where
  "toString chunk = utf8_decode (map unat chunk)"

subsection \<open>\<open>split('\n')\<close> and \<open>trim()\<close>\<close>

fun split_lines :: "jstring \<Rightarrow> jstring list" where
  "split_lines [] = [[]]"
| "split_lines (c # cs) =
     (if c = 10 then [] # split_lines cs
      else (case split_lines cs of [] \<Rightarrow> [[c]] | l # ls \<Rightarrow> (c # l) # ls))"

definition is_js_space :: "nat \<Rightarrow> bool" where
  "is_js_space c =
     (c \<in> {9, 10, 11, 12, 13, 32, 160, 5760, 8232, 8233, 8239, 8287, 12288, 65279}
      \<or> (8192 \<le> c \<and> c \<le> 8202))"

text \<open>\<open>!line.trim()\<close>: the line is empty once its white space is removed.\<close>

definition blank :: "jstring \<Rightarrow> bool" where
  "blank line = list_all is_js_space line"

section \<open>StreamSplitter (src/multiplex/stream-splitter.ts)\<close>

text \<open>
  A key of the \<open>streams\<close> and \<open>metadata\<close> maps. A \<open>Map\<close> compares strings, numbers and
  booleans by value and arrays and objects by identity; every parsed message is a new
  object, so the key carries 0 for a value and a fresh number for an array or object.
\<close>

type_synonym stream_key = "json \<times> nat"

fun by_value :: "json \<Rightarrow> bool" where
  "by_value (JArr _) = False"
| "by_value (JObj _) = False"
| "by_value _ = True"

record StreamMetadata =
  sm_agentId :: json
  sm_streamId :: json
  sm_type :: json
  started :: int
  chunks :: nat

text \<open>A \<open>PassThrough\<close> stream: what was written to it, and whether \<open>end()\<close> was called.\<close>

record PassThrough =
  written :: "jstring list"
  ended :: bool

datatype splitter_event =
    StreamCreated stream_key StreamMetadata
  | StreamStart stream_key "json option"
  | StreamChunk stream_key "json option"
  | StreamEnd stream_key StreamMetadata

record splitter =
  streams :: "(stream_key \<times> PassThrough) list"
  metadata :: "(stream_key \<times> StreamMetadata) list"
  buffers :: "(string \<times> jstring) list"
  sp_emitted :: "splitter_event list"
  next_ref :: nat

definition new_splitter :: splitter where
  "new_splitter = \<lparr>streams = [], metadata = [], buffers = [], sp_emitted = [], next_ref = 0\<rparr>"

definition cleanup :: "stream_key \<Rightarrow> splitter \<Rightarrow> splitter" where
  "cleanup streamId s =
     s\<lparr>streams := AList.delete streamId (streams s),
       metadata := AList.delete streamId (metadata s)\<rparr>"

definition stream_write :: "stream_key \<Rightarrow> jstring \<Rightarrow> splitter \<Rightarrow> splitter" where
  "stream_write streamId line s =
     s\<lparr>streams := AList.map_entry streamId (\<lambda>st. st\<lparr>written := written st @ [line]\<rparr>) (streams s)\<rparr>"

definition emit :: "splitter_event \<Rightarrow> splitter \<Rightarrow> splitter" where
  "emit e s = s\<lparr>sp_emitted := sp_emitted s @ [e]\<rparr>"

text \<open>
  \<open>routeMessage\<close>. \<open>None\<close> is the \<open>TypeError\<close> of reading \<open>msg.streamId\<close> when the parsed
  message is \<open>null\<close>; nothing has been changed at that point. \<open>now\<close> is \<open>Date.now()\<close>.
\<close>

definition stream_key_of :: "json \<Rightarrow> splitter \<Rightarrow> stream_key" where
  "stream_key_of msg s =
     (let v = or_else (field msg (str ''streamId'')) (or_else (field msg (str ''agentId'')) (JStr (str ''default'')))
      in (v, if by_value v then 0 else Suc (next_ref s)))"

definition get_or_create :: "json \<Rightarrow> stream_key \<Rightarrow> int \<Rightarrow> splitter \<Rightarrow> splitter" where
  "get_or_create msg streamId now s =
     (case map_of (streams s) streamId of
        Some stream \<Rightarrow> s
      | None \<Rightarrow>
          (let meta = \<lparr>sm_agentId = or_else (field msg (str ''agentId'')) (fst streamId),
                       sm_streamId = fst streamId,
                       sm_type = or_else (field msg (str ''type'')) (JStr (str ''response'')),
                       started = now, chunks = 0\<rparr>
           in emit (StreamCreated streamId meta)
                (s\<lparr>streams := AList.update streamId \<lparr>written = [], ended = False\<rparr> (streams s),
                   metadata := AList.update streamId meta (metadata s)\<rparr>)))"

text \<open>The \<open>switch (msg.type)\<close> of \<open>routeMessage\<close>.\<close>

definition dispatch :: "json \<Rightarrow> stream_key \<Rightarrow> StreamMetadata \<Rightarrow> splitter \<Rightarrow> splitter" where
  "dispatch msg streamId meta s =
     (let type = field msg (str ''type'')
      in if type = Some (JStr (str ''stream:start'')) then
           emit (StreamStart streamId (field msg (str ''data''))) s
         else if type = Some (JStr (str ''stream:chunk'')) then
           emit (StreamChunk streamId (field msg (str ''data'')))
             (stream_write streamId (stringify_line (field msg (str ''data''))) s)
         else if type = Some (JStr (str ''stream:end'')) then
           cleanup streamId
             (emit (StreamEnd streamId meta)
                (s\<lparr>streams := AList.map_entry streamId (\<lambda>st. st\<lparr>ended := True\<rparr>) (streams s)\<rparr>))
         else stream_write streamId (stringify_line (Some msg)) s)"

definition routeMessage :: "json \<Rightarrow> int \<Rightarrow> splitter \<Rightarrow> splitter option" where
  "routeMessage msg now s0 =
     (if msg = JNull then None
      else
        (let streamId = stream_key_of msg s0;
             s1 = get_or_create msg streamId now (s0\<lparr>next_ref := Suc (next_ref s0)\<rparr>)
         in case map_of (metadata s1) streamId of
              None \<Rightarrow> None
            | Some meta0 \<Rightarrow>
                (let meta = meta0\<lparr>chunks := Suc (chunks meta0)\<rparr>
                 in Some (dispatch msg streamId meta
                            (s1\<lparr>metadata := AList.update streamId meta (metadata s1)\<rparr>)))))"


text \<open>
  \<open>handlePartialMessage\<close> and \<open>processChunk\<close>. \<open>JSON.parse\<close> is the argument \<open>parse\<close>,
  \<open>None\<close> when it throws. The \<open>try\<close> blocks also enclose the call of \<open>routeMessage\<close>, so
  its \<open>TypeError\<close> takes the same \<open>catch\<close> branch as a parse failure.
\<close>

definition handlePartialMessage :: "(jstring \<Rightarrow> json option) \<Rightarrow> jstring \<Rightarrow> int \<Rightarrow> splitter \<Rightarrow> splitter" where
  "handlePartialMessage parse partial now s =
     (let bufferKey = ''partial'';
          existing = (case map_of (buffers s) bufferKey of None \<Rightarrow> [] | Some b \<Rightarrow> b);
          combined = existing @ partial;
          still_partial = s\<lparr>buffers := AList.update bufferKey combined (buffers s)\<rparr>
      in case parse combined of
           None \<Rightarrow> still_partial
         | Some parsed \<Rightarrow>
             (case routeMessage parsed now s of
                None \<Rightarrow> still_partial
              | Some s' \<Rightarrow> s'\<lparr>buffers := AList.delete bufferKey (buffers s')\<rparr>))"

definition process_line :: "(jstring \<Rightarrow> json option) \<Rightarrow> int \<Rightarrow> jstring \<Rightarrow> splitter \<Rightarrow> splitter" where
  "process_line parse now line s =
     (if blank line then s
      else case parse line of
             None \<Rightarrow> handlePartialMessage parse line now s
           | Some parsed \<Rightarrow>
               (case routeMessage parsed now s of
                  None \<Rightarrow> handlePartialMessage parse line now s
                | Some s' \<Rightarrow> s'))"

definition processChunk :: "(jstring \<Rightarrow> json option) \<Rightarrow> 8 word list \<Rightarrow> int \<Rightarrow> splitter \<Rightarrow> splitter" where
  "processChunk parse chunk now s =
     (let data = toString chunk; lines = split_lines data
      in fold (process_line parse now) lines s)"

text \<open>
  A run of \<open>routeMessage\<close> calls; a call that throws leaves the splitter as it was.
\<close>

fun route_all :: "(json \<times> int) list \<Rightarrow> splitter \<Rightarrow> splitter" where
  "route_all [] s = s"
| "route_all ((msg, now) # ms) s =
     route_all ms (case routeMessage msg now s of None \<Rightarrow> s | Some s' \<Rightarrow> s')"

text \<open>
  What every run preserves: both maps have distinct keys, the same keys, and no key
  carries an identity that is still to be drawn.
\<close>

definition keys_below :: "nat \<Rightarrow> (stream_key \<times> 'a) list \<Rightarrow> bool" where
  "keys_below n al = (\<forall>k\<in>fst ` set al. snd k \<le> n)"

definition sp_inv :: "splitter \<Rightarrow> bool" where
  "sp_inv s =
     (distinct (map fst (streams s)) \<and> distinct (map fst (metadata s))
      \<and> (\<forall>k. map_of (streams s) k = None \<longleftrightarrow> map_of (metadata s) k = None)
      \<and> keys_below (next_ref s) (metadata s))"

definition is_end :: "json \<Rightarrow> bool" where
  "is_end msg = (field msg (str ''type'') = Some (JStr (str ''stream:end'')))"







section \<open>A JSON parser for the concrete runs\<close>

text \<open>
  \<open>JSON.parse\<close> is an argument of \<open>processChunk\<close> above. The concrete runs below use
  this recursive-descent parser for JSON texts without fractions and exponents; the
  first argument of the mutually recursive functions bounds the recursion depth and is
  started at the length of the text.
\<close>

fun skip_ws :: "jstring \<Rightarrow> jstring" where
  "skip_ws [] = []"
| "skip_ws (c # cs) = (if c = 32 \<or> c = 9 \<or> c = 10 \<or> c = 13 then skip_ws cs else c # cs)"

definition is_digit :: "nat \<Rightarrow> bool" where
  "is_digit c = (48 \<le> c \<and> c \<le> 57)"

definition hex_value :: "nat \<Rightarrow> nat option" where
  "hex_value c =
     (if 48 \<le> c \<and> c \<le> 57 then Some (c - 48)
      else if 97 \<le> c \<and> c \<le> 102 then Some (c - 87)
      else if 65 \<le> c \<and> c \<le> 70 then Some (c - 55)
      else None)"

definition unescape :: "nat \<Rightarrow> nat option" where
  "unescape e =
     (if e = 34 \<or> e = 92 \<or> e = 47 then Some e
      else if e = 98 then Some 8
      else if e = 102 then Some 12
      else if e = 110 then Some 10
      else if e = 114 then Some 13
      else if e = 116 then Some 9
      else None)"

definition cons_to :: "'a \<Rightarrow> ('a list \<times> 'b) option \<Rightarrow> ('a list \<times> 'b) option" where
  "cons_to x r = map_option (\<lambda>p. (x # fst p, snd p)) r"

text \<open>The text after an opening quote: the string it denotes and what follows the closing quote.\<close>

fun parse_string :: "jstring \<Rightarrow> (jstring \<times> jstring) option" where
  "parse_string [] = None"
| "parse_string (c # cs) =
     (if c = 34 then Some ([], cs)
      else if c = 92 then
        (case cs of
           [] \<Rightarrow> None
         | e # es \<Rightarrow>
             if e = 117 then
               (case es of
                  h1 # h2 # h3 # h4 # rest \<Rightarrow>
                    (case (hex_value h1, hex_value h2, hex_value h3, hex_value h4) of
                       (Some a, Some b, Some c', Some d) \<Rightarrow>
                         cons_to (a * 4096 + b * 256 + c' * 16 + d) (parse_string rest)
                     | _ \<Rightarrow> None)
                | _ \<Rightarrow> None)
             else (case unescape e of None \<Rightarrow> None | Some u \<Rightarrow> cons_to u (parse_string es)))
      else if c < 32 then None
      else cons_to c (parse_string cs))"

fun parse_digits :: "jstring \<Rightarrow> nat \<Rightarrow> nat \<times> jstring" where
  "parse_digits [] acc = (acc, [])"
| "parse_digits (c # cs) acc =
     (if is_digit c then parse_digits cs (acc * 10 + (c - 48)) else (acc, c # cs))"

definition parse_number :: "jstring \<Rightarrow> (json \<times> jstring) option" where
  "parse_number cs =
     (let neg = (case cs of [] \<Rightarrow> False | c # _ \<Rightarrow> c = 45);
          ds = (if neg then tl cs else cs)
      in case ds of
           [] \<Rightarrow> None
         | d # r \<Rightarrow>
             if \<not> is_digit d then None
             else if d = 48 \<and> (case r of [] \<Rightarrow> False | d2 # _ \<Rightarrow> is_digit d2) then None
             else
               (let (n, rest) = parse_digits ds 0
                in if (case rest of [] \<Rightarrow> False | x # _ \<Rightarrow> x = 46 \<or> x = 101 \<or> x = 69) then None
                   else Some (JNum (if neg then - int n else int n), rest)))"

fun starts_with :: "jstring \<Rightarrow> jstring \<Rightarrow> jstring option" where
  "starts_with [] cs = Some cs"
| "starts_with (p # ps) [] = None"
| "starts_with (p # ps) (c # cs) = (if p = c then starts_with ps cs else None)"

definition parse_literal :: "jstring \<Rightarrow> (json \<times> jstring) option" where
  "parse_literal cs =
     (case starts_with (str ''true'') cs of
        Some r \<Rightarrow> Some (JBool True, r)
      | None \<Rightarrow>
          (case starts_with (str ''false'') cs of
             Some r \<Rightarrow> Some (JBool False, r)
           | None \<Rightarrow>
               (case starts_with (str ''null'') cs of
                  Some r \<Rightarrow> Some (JNull, r)
                | None \<Rightarrow> None)))"

text \<open>Of two members with the same name the later value stays, at the place of the first.\<close>

definition object_of :: "(jstring \<times> json) list \<Rightarrow> json" where
  "object_of members = JObj (foldl (\<lambda>al kv. AList.update (fst kv) (snd kv) al) [] members)"

fun parse_value :: "nat \<Rightarrow> jstring \<Rightarrow> (json \<times> jstring) option"
  and parse_elements :: "nat \<Rightarrow> jstring \<Rightarrow> (json list \<times> jstring) option"
  and parse_members :: "nat \<Rightarrow> jstring \<Rightarrow> ((jstring \<times> json) list \<times> jstring) option" where
  "parse_value 0 cs = None"
| "parse_value (Suc n) cs =
     (case cs of
        [] \<Rightarrow> None
      | c # r \<Rightarrow>
          if c = 123 then
            (case skip_ws r of
               [] \<Rightarrow> None
             | d # r' \<Rightarrow>
                 if d = 125 then Some (JObj [], r')
                 else map_option (\<lambda>p. (object_of (fst p), snd p)) (parse_members n (d # r')))
          else if c = 91 then
            (case skip_ws r of
               [] \<Rightarrow> None
             | d # r' \<Rightarrow>
                 if d = 93 then Some (JArr [], r')
                 else map_option (\<lambda>p. (JArr (fst p), snd p)) (parse_elements n (d # r')))
          else if c = 34 then map_option (\<lambda>p. (JStr (fst p), snd p)) (parse_string r)
          else if c = 45 \<or> is_digit c then parse_number cs
          else parse_literal cs)"
| "parse_elements 0 cs = None"
| "parse_elements (Suc n) cs =
     (case parse_value n cs of
        None \<Rightarrow> None
      | Some (v, r) \<Rightarrow>
          (case skip_ws r of
             [] \<Rightarrow> None
           | d # r' \<Rightarrow>
               if d = 93 then Some ([v], r')
               else if d = 44 then cons_to v (parse_elements n (skip_ws r'))
               else None))"
| "parse_members 0 cs = None"
| "parse_members (Suc n) cs =
     (case cs of
        [] \<Rightarrow> None
      | q # r \<Rightarrow>
          if q \<noteq> 34 then None
          else
            (case parse_string r of
               None \<Rightarrow> None
             | Some (k, r1) \<Rightarrow>
                 (case skip_ws r1 of
                    [] \<Rightarrow> None
                  | colon # r2 \<Rightarrow>
                      if colon \<noteq> 58 then None
                      else
                        (case parse_value n (skip_ws r2) of
                           None \<Rightarrow> None
                         | Some (v, r3) \<Rightarrow>
                             (case skip_ws r3 of
                                [] \<Rightarrow> None
                              | d # r4 \<Rightarrow>
                                  if d = 125 then Some ([(k, v)], r4)
                                  else if d = 44 then cons_to (k, v) (parse_members n (skip_ws r4))
                                  else None)))))"

definition json_parse :: "jstring \<Rightarrow> json option" where
  "json_parse text =
     (case parse_value (Suc (length text)) (skip_ws text) of
        None \<Rightarrow> None
      | Some (v, r) \<Rightarrow> if skip_ws r = [] then Some v else None)"

text \<open>
  A one-line message with the single field \<open>a\<close>, whose value is the letter e with
  acute accent (U+00E9), and the bytes of its UTF-8 encoding; the letter is the two
  bytes C3 A9.
\<close>

definition accent_message :: json where
  "accent_message = JObj [(str ''a'', JStr [233])]"

definition accent_bytes :: "8 word list" where
  "accent_bytes = [0x7B, 0x22, 0x61, 0x22, 0x3A, 0x22, 0xC3, 0xA9, 0x22, 0x7D]"

text \<open>The same message with two replacement characters (U+FFFD) in place of the letter.\<close>

definition replaced_message :: json where
  "replaced_message = JObj [(str ''a'', JStr [65533, 65533])]"

section \<open>AsyncRouter: routes and the message queue (src/multiplex/async-router.ts)\<close>

text \<open>
  A pattern is a string or a \<open>RegExp\<close> object. A \<open>RegExp\<close> is its identity, the text
  \<open>toString\<close> gives, whether it has the \<open>g\<close> or the \<open>y\<close> flag, and its matcher: from the
  index to start at and the string, the end of the match found, if there is one. The
  \<open>lastIndex\<close> of every \<open>RegExp\<close> is kept in the router by identity, since two routes
  may hold the same object; it is 0 for an object not yet written, and only \<open>test\<close>
  writes it.
\<close>

datatype pattern = PString jstring | PRegExp nat jstring bool "nat \<Rightarrow> jstring \<Rightarrow> nat option"

text \<open>
  A handler is an async function: what it does with a message is its outcome, a
  returned value (\<open>None\<close> for \<open>undefined\<close>) or a thrown value. Of a thrown value the
  router reads \<open>.message\<close> only: \<open>Nullish\<close> is \<open>null\<close> or \<open>undefined\<close>, where that is a
  \<open>TypeError\<close>; \<open>Value m\<close> is any other value, \<open>m\<close> its \<open>message\<close> property (\<open>None\<close> when
  it has none). When a handler settles is decided by the run, not by the handler.
\<close>

datatype thrown = Nullish | Value "json option"

datatype handler_outcome = Returned "json option" | Threw thrown

record RouteConfig =
  rc_pattern :: pattern
  rc_handler :: "json \<Rightarrow> handler_outcome"
  rc_priority :: "int option"

fun pattern_text :: "pattern \<Rightarrow> jstring" where
  "pattern_text (PString p) = p"
| "pattern_text (PRegExp r text gy exec) = text"

text \<open>
  What the router does, in order: \<open>Shift\<close> is \<open>messageQueue.shift()\<close>, \<open>Call\<close> the call
  \<open>route.handler(msg)\<close>, \<open>Unhandled\<close> the rejection of the promise of \<open>handleRoute\<close>,
  the others the events it emits.
\<close>

datatype router_action =
    Shift json
  | Call jstring jstring json
  | RouteHandled jstring jstring
  | RouteResult json json jstring
  | RouteError jstring jstring "json option" json
  | RouteAdded jstring jstring
  | Unhandled jstring jstring

type_synonym route_call = "jstring \<times> RouteConfig \<times> json"

text \<open>
  \<open>awaited\<close> are the \<open>handleRoute\<close> promises the drain loop waits for in
  \<open>Promise.allSettled\<close>; \<open>orphaned\<close> are promises of a loop that has ended with an
  exception.
\<close>

record router =
  routes :: "(jstring \<times> RouteConfig list) list"
  messageQueue :: "json list"
  processing :: bool
  awaited :: "route_call list"
  orphaned :: "route_call list"
  lastIndex :: "(nat \<times> nat) list"
  log :: "router_action list"

definition new_router :: router where
  "new_router =
     \<lparr>routes = [], messageQueue = [], processing = False, awaited = [], orphaned = [],
      lastIndex = [], log = []\<rparr>"

definition priority_or_0 :: "RouteConfig \<Rightarrow> int" where
  "priority_or_0 r = (case rc_priority r of None \<Rightarrow> 0 | Some p \<Rightarrow> p)"

definition addRoute :: "jstring \<Rightarrow> RouteConfig \<Rightarrow> router \<Rightarrow> router" where
  "addRoute topic config s =
     (let existing = (case map_of (routes s) topic of None \<Rightarrow> [] | Some rs \<Rightarrow> rs);
          sorted = sort_by (\<lambda>a b. priority_or_0 b - priority_or_0 a) (existing @ [config])
      in s\<lparr>routes := AList.update topic sorted (routes s),
            log := log s @ [RouteAdded topic (pattern_text (rc_pattern config))]\<rparr>)"

definition lastIndex_of :: "(nat \<times> nat) list \<Rightarrow> nat \<Rightarrow> nat" where
  "lastIndex_of li r = (case map_of li r of None \<Rightarrow> 0 | Some i \<Rightarrow> i)"

text \<open>
  \<open>matchesPattern\<close>, with the \<open>lastIndex\<close> table before and after. \<open>None\<close> is the
  \<open>TypeError\<close> of \<open>msg.topic\<close> for a \<open>null\<close> message. With the \<open>g\<close> or \<open>y\<close> flag \<open>test\<close>
  starts at \<open>lastIndex\<close> and stores there the end of the match, or 0 when there is
  none; without, it starts at 0 and leaves \<open>lastIndex\<close> as it is.
\<close>

fun matchesPattern :: "json \<Rightarrow> pattern \<Rightarrow> (nat \<times> nat) list \<Rightarrow> bool option \<times> (nat \<times> nat) list" where
  "matchesPattern msg (PString p) li =
     (if msg = JNull then None
      else Some (field msg (str ''topic'') = Some (JStr p) \<or> field msg (str ''type'') = Some (JStr p)),
      li)"
| "matchesPattern msg (PRegExp r text gy exec) li =
     (let testString = stringify msg
      in if gy then
           (case exec (lastIndex_of li r) testString of
              None \<Rightarrow> (Some False, AList.update r 0 li)
            | Some e \<Rightarrow> (Some True, AList.update r e li))
         else (Some (exec 0 testString \<noteq> None), li))"

definition all_routes :: "(jstring \<times> RouteConfig list) list \<Rightarrow> (jstring \<times> RouteConfig) list" where
  "all_routes rs = concat (map (\<lambda>tr. map (Pair (fst tr)) (snd tr)) rs)"

text \<open>
  The two nested \<open>for\<close> loops of \<open>processQueue\<close> for one message: the calls started, in
  order, whether \<open>matchesPattern\<close> threw, which ends the loops and \<open>processQueue\<close>, and
  the \<open>lastIndex\<close> table left.
\<close>

fun start_handlers :: "(jstring \<times> RouteConfig) list \<Rightarrow> json \<Rightarrow> (nat \<times> nat) list
    \<Rightarrow> route_call list \<times> bool \<times> (nat \<times> nat) list" where
  "start_handlers [] msg li = ([], False, li)"
| "start_handlers ((topic, route) # rest) msg li =
     (let (matches, li1) = matchesPattern msg (rc_pattern route) li
      in case matches of
           None \<Rightarrow> ([], True, li1)
         | Some False \<Rightarrow> start_handlers rest msg li1
         | Some True \<Rightarrow>
             (let (calls, threw, li2) = start_handlers rest msg li1
              in ((topic, route, msg) # calls, threw, li2)))"

definition call_action :: "route_call \<Rightarrow> router_action" where
  "call_action c = Call (fst c) (pattern_text (rc_pattern (fst (snd c)))) (snd (snd c))"

text \<open>
  The \<open>while\<close> loop of \<open>processQueue\<close> up to the point where it has to wait: the queue
  left, the calls it waits for, whether it ended with an exception, what it did, and
  the \<open>lastIndex\<close> table left. With nothing to wait for it goes on with the next message.
\<close>

fun drain :: "(jstring \<times> RouteConfig list) list \<Rightarrow> json list \<Rightarrow> (nat \<times> nat) list
    \<Rightarrow> json list \<times> route_call list \<times> bool \<times> router_action list \<times> (nat \<times> nat) list" where
  "drain rs [] li = ([], [], False, [], li)"
| "drain rs (msg # queue) li =
     (let (calls, threw, li1) = start_handlers (all_routes rs) msg li;
          acts = Shift msg # map call_action calls
      in if threw then (queue, calls, True, acts, li1)
         else if calls = [] then
           (let (queue', calls', threw', acts', li2) = drain rs queue li1
            in (queue', calls', threw', acts @ acts', li2))
         else (queue, calls, False, acts, li1))"

text \<open>
  \<open>processQueue\<close>. When \<open>matchesPattern\<close> throws, the promise of \<open>processQueue\<close> rejects
  at that point: \<open>processing\<close> stays \<open>true\<close>, and the calls already started go on
  unawaited.
\<close>

definition processQueue :: "router \<Rightarrow> router" where
  "processQueue s =
     (let (queue, calls, threw, acts, li) = drain (routes s) (messageQueue s) (lastIndex s)
      in s\<lparr>messageQueue := queue,
            awaited := (if threw then [] else calls),
            orphaned := orphaned s @ (if threw then calls else []),
            processing := (threw \<or> calls \<noteq> []),
            lastIndex := li,
            log := log s @ acts\<rparr>)"

text \<open>The listener on \<open>route:message\<close>.\<close>

definition on_route_message :: "json \<Rightarrow> router \<Rightarrow> router" where
  "on_route_message msg s =
     (let s1 = s\<lparr>messageQueue := messageQueue s @ [msg]\<rparr>
      in if \<not> processing s1 then processQueue s1 else s1)"

text \<open>
  What \<open>handleRoute\<close> does once the handler has settled. In the \<open>catch\<close> block
  \<open>error.message\<close> is read before \<open>route:error\<close> is emitted, so for a thrown \<open>null\<close> or
  \<open>undefined\<close> the block itself throws and nothing is emitted.
\<close>

definition handleRoute_settled :: "route_call \<Rightarrow> router_action list" where
  "handleRoute_settled c =
     (let topic = fst c; route = fst (snd c); msg = snd (snd c)
      in case rc_handler route msg of
           Returned result \<Rightarrow>
             RouteHandled topic (pattern_text (rc_pattern route))
             # (case result of
                  None \<Rightarrow> []
                | Some r \<Rightarrow> if truthy result then [RouteResult msg r topic] else [])
         | Threw Nullish \<Rightarrow> [Unhandled topic (pattern_text (rc_pattern route))]
         | Threw (Value message) \<Rightarrow>
             [RouteError topic (pattern_text (rc_pattern route)) message msg])"

definition remove_nth :: "nat \<Rightarrow> 'a list \<Rightarrow> 'a list" where
  "remove_nth k xs = take k xs @ drop (Suc k) xs"

text \<open>
  The \<open>k\<close>-th awaited call settles. When it was the last one, \<open>Promise.allSettled\<close>
  resolves and the loop goes on.
\<close>

definition settle :: "nat \<Rightarrow> router \<Rightarrow> router" where
  "settle k s =
     (if k < length (awaited s) then
        (let s1 = s\<lparr>awaited := remove_nth k (awaited s),
                     log := log s @ handleRoute_settled (awaited s ! k)\<rparr>
         in if awaited s1 = [] then processQueue s1 else s1)
      else s)"

definition settle_orphan :: "nat \<Rightarrow> router \<Rightarrow> router" where
  "settle_orphan k s =
     (if k < length (orphaned s) then
        s\<lparr>orphaned := remove_nth k (orphaned s),
          log := log s @ handleRoute_settled (orphaned s ! k)\<rparr>
      else s)"

datatype router_op =
    AddRoute jstring RouteConfig
  | Message json
  | Settle nat
  | SettleOrphan nat

fun router_step :: "router_op \<Rightarrow> router \<Rightarrow> router" where
  "router_step (AddRoute topic config) s = addRoute topic config s"
| "router_step (Message msg) s = on_route_message msg s"
| "router_step (Settle k) s = settle k s"
| "router_step (SettleOrphan k) s = settle_orphan k s"

fun router_run :: "router_op list \<Rightarrow> router \<Rightarrow> router" where
  "router_run [] s = s"
| "router_run (x # xs) s = router_run xs (router_step x s)"

text \<open>
  The messages that arrived, the messages taken from the queue and the handler calls
  made, in order.
\<close>

fun arrivals :: "router_op list \<Rightarrow> json list" where
  "arrivals [] = []"
| "arrivals (Message msg # xs) = msg # arrivals xs"
| "arrivals (_ # xs) = arrivals xs"

fun shifted :: "router_action list \<Rightarrow> json list" where
  "shifted [] = []"
| "shifted (Shift msg # as) = msg # shifted as"
| "shifted (_ # as) = shifted as"

fun called :: "router_action list \<Rightarrow> (jstring \<times> json) list" where
  "called [] = []"
| "called (Call t p msg # as) = (t, msg) # called as"
| "called (_ # as) = called as"

text \<open>
  Reading a log with \<open>n\<close> handler calls not yet settled: a message is taken from the
  queue only when none is, and a call settles with \<open>route:handled\<close>, \<open>route:error\<close> or
  the rejection of \<open>handleRoute\<close>. The result is the number of calls still running,
  \<open>None\<close> when the log breaks the rule.
\<close>

fun outstanding :: "nat \<Rightarrow> router_action list \<Rightarrow> nat option" where
  "outstanding n [] = Some n"
| "outstanding n (Shift msg # as) = (if n = 0 then outstanding 0 as else None)"
| "outstanding n (Call t p msg # as) = outstanding (Suc n) as"
| "outstanding n (RouteHandled t p # as) = (if n = 0 then None else outstanding (n - 1) as)"
| "outstanding n (RouteError t p e msg # as) = (if n = 0 then None else outstanding (n - 1) as)"
| "outstanding n (Unhandled t p # as) = (if n = 0 then None else outstanding (n - 1) as)"
| "outstanding n (RouteResult msg r t # as) = outstanding n as"
| "outstanding n (RouteAdded t p # as) = outstanding n as"

text \<open>What every run of the router preserves.\<close>

definition router_inv :: "router \<Rightarrow> bool" where
  "router_inv s =
     (outstanding 0 (log s) = Some (length (awaited s) + length (orphaned s))
      \<and> (awaited s \<noteq> [] \<longrightarrow> orphaned s = [] \<and> processing s)
      \<and> (\<not> processing s \<longrightarrow> awaited s = [] \<and> orphaned s = []))"

text \<open>
  A router whose drain loop has ended with an exception and has nothing left running.
\<close>

definition wedged :: "router \<Rightarrow> bool" where
  "wedged s = (processing s \<and> awaited s = [] \<and> orphaned s = [])"

text \<open>
  What runs without a \<open>null\<close> message preserve: no call is left behind by a loop that
  ended with an exception, \<open>processing\<close> is set exactly while calls are awaited, and
  with nothing awaited the queue is empty.
\<close>

definition never_stuck :: "router \<Rightarrow> bool" where
  "never_stuck s =
     (orphaned s = [] \<and> (processing s \<longleftrightarrow> awaited s \<noteq> []) \<and> JNull \<notin> set (messageQueue s)
      \<and> (awaited s = [] \<longrightarrow> messageQueue s = []))"

text \<open>
  A concrete router: a route with a string pattern, then a route whose \<open>RegExp\<close>
  matches the text of \<open>null\<close>; a \<open>null\<close> message arrives.
\<close>

definition job_route :: RouteConfig where
  "job_route =
     \<lparr>rc_pattern = PString (str ''job''), rc_handler = (\<lambda>msg. Returned (Some (JBool True))),
      rc_priority = None\<rparr>"

definition audit_route :: RouteConfig where
  "audit_route =
     \<lparr>rc_pattern = PRegExp 0 (str ''/^null$/'') False (\<lambda>i s. if s = str ''null'' then Some 4 else None),
      rc_handler = (\<lambda>msg. Returned None), rc_priority = None\<rparr>"

definition job :: "int \<Rightarrow> json" where
  "job n = JObj [(str ''topic'', JStr (str ''job'')), (str ''n'', JNum n)]"

definition null_arrived :: router where
  "null_arrived =
     router_run [AddRoute (str ''jobs'') job_route, AddRoute (str ''audit'') audit_route,
                 Message JNull] new_router"

text \<open>A handler that rejects with \<open>undefined\<close>, as \<open>Promise.reject()\<close> does.\<close>

definition rejecting_route :: RouteConfig where
  "rejecting_route =
     \<lparr>rc_pattern = PString (str ''job''), rc_handler = (\<lambda>msg. Threw Nullish), rc_priority = None\<rparr>"

text \<open>
  The matcher of a \<open>RegExp\<close> whose source is a literal text: the first occurrence at or
  after the start index. \<open>global_route\<close> has the pattern \<open>/job/g\<close>.
\<close>

definition literal_matcher :: "jstring \<Rightarrow> nat \<Rightarrow> jstring \<Rightarrow> nat option" where
  "literal_matcher p i s =
     map_option (\<lambda>k. k + length p)
       (find (\<lambda>k. take (length p) (drop k s) = p) [i ..< Suc (length s) - length p])"

definition global_route :: RouteConfig where
  "global_route =
     \<lparr>rc_pattern = PRegExp 1 (str ''/job/g'') True (literal_matcher (str ''job'')),
      rc_handler = (\<lambda>msg. Returned None), rc_priority = None\<rparr>"

section \<open>AsyncRouter: request and onRequest (src/multiplex/async-router.ts)\<close>

text \<open>
  An \<open>onRequest\<close> handler is an async function: what it does with a payload is its
  result, a returned value (\<open>None\<close> for \<open>undefined\<close>) or a thrown \<open>Error\<close> with its
  message.
\<close>

datatype handler_result = Returns "json option" | Throws jstring

datatype settlement = Fulfilled "json option" | Rejected jstring

text \<open>
  One call of \<open>request\<close>: the timer set with \<open>setTimeout\<close> (armed until it fires or is
  cleared), the one-shot listener on \<open>route:response:<requestId>\<close>, the promise it
  returned, and the number of calls of the promise's \<open>resolve\<close> or \<open>reject\<close>.
\<close>

record request_state =
  rq_topic :: jstring
  rq_payload :: json
  timer_armed :: bool
  listening :: bool
  promise :: "settlement option"
  settle_calls :: nat

text \<open>
  The router's node with its \<open>onRequest\<close> listeners. A request id is the index of the
  request in \<open>requests\<close>, which stands for the fresh \<open>randomUUID()\<close>. \<open>replies_due\<close> are
  the \<open>onRequest\<close> listeners that took a request and are waiting for their handler:
  the request they answer, and what the handler comes back with.
\<close>

record request_bus =
  responders :: "(jstring \<times> (json \<Rightarrow> handler_result)) list"
  requests :: "request_state list"
  replies_due :: "(nat \<times> handler_result) list"

definition new_bus :: request_bus where
  "new_bus = \<lparr>responders = [], requests = [], replies_due = []\<rparr>"

definition onRequest :: "jstring \<Rightarrow> (json \<Rightarrow> handler_result) \<Rightarrow> request_bus \<Rightarrow> request_bus" where
  "onRequest topic handler s = s\<lparr>responders := responders s @ [(topic, handler)]\<rparr>"

text \<open>
  \<open>request\<close>: timer, listener, then \<open>route:request\<close> is emitted and every \<open>onRequest\<close>
  listener whose topic is the request's topic calls its handler with the payload.
\<close>

definition request :: "jstring \<Rightarrow> json \<Rightarrow> request_bus \<Rightarrow> nat \<times> request_bus" where
  "request topic payload s =
     (let requestId = length (requests s);
          r = \<lparr>rq_topic = topic, rq_payload = payload, timer_armed = True, listening = True,
               promise = None, settle_calls = 0\<rparr>;
          taken = map (\<lambda>th. (requestId, snd th payload))
                    (filter (\<lambda>th. fst th = topic) (responders s))
      in (requestId, s\<lparr>requests := requests s @ [r], replies_due := replies_due s @ taken\<rparr>))"

text \<open>\<open>resolve\<close> and \<open>reject\<close>: a promise keeps its first settlement.\<close>

definition settle_promise :: "settlement \<Rightarrow> request_state \<Rightarrow> request_state" where
  "settle_promise x r =
     r\<lparr>promise := (case promise r of None \<Rightarrow> Some x | Some y \<Rightarrow> Some y),
       settle_calls := Suc (settle_calls r)\<rparr>"

text \<open>The timer callback: \<open>off\<close> the listener, \<open>reject\<close>.\<close>

definition timer_fires :: "nat \<Rightarrow> request_bus \<Rightarrow> request_bus" where
  "timer_fires i s =
     (if i < length (requests s) \<and> timer_armed (requests s ! i) then
        s\<lparr>requests := (requests s)[i := settle_promise (Rejected (str ''Request timeout''))
                          ((requests s ! i)\<lparr>timer_armed := False, listening := False\<rparr>)]\<rparr>
      else s)"

text \<open>
  The response listener of \<open>request\<close>, run with the data of the reply event:
  \<open>clearTimeout\<close>, \<open>resolve(event.data.result)\<close>. A reply to a failed handler carries
  \<open>error\<close> and no \<open>result\<close>.
\<close>

definition reply_result :: "handler_result \<Rightarrow> json option" where
  "reply_result h = (case h of Returns r \<Rightarrow> r | Throws e \<Rightarrow> None)"

definition deliver_reply :: "nat \<Rightarrow> handler_result \<Rightarrow> request_bus \<Rightarrow> request_bus" where
  "deliver_reply i h s =
     (if i < length (requests s) \<and> listening (requests s ! i) then
        s\<lparr>requests := (requests s)[i := settle_promise (Fulfilled (reply_result h))
                          ((requests s ! i)\<lparr>listening := False, timer_armed := False\<rparr>)]\<rparr>
      else s)"

text \<open>
  The handler of the \<open>k\<close>-th waiting \<open>onRequest\<close> listener settles and the listener
  emits its reply to \<open>replyTo\<close>.
\<close>

definition reply_arrives :: "nat \<Rightarrow> request_bus \<Rightarrow> request_bus" where
  "reply_arrives k s =
     (if k < length (replies_due s) then
        deliver_reply (fst (replies_due s ! k)) (snd (replies_due s ! k))
          (s\<lparr>replies_due := remove_nth k (replies_due s)\<rparr>)
      else s)"

datatype bus_op =
    OnRequest jstring "json \<Rightarrow> handler_result"
  | Request jstring json
  | ReplyArrives nat
  | TimerFires nat

fun bus_step :: "bus_op \<Rightarrow> request_bus \<Rightarrow> request_bus" where
  "bus_step (OnRequest topic handler) s = onRequest topic handler s"
| "bus_step (Request topic payload) s = snd (request topic payload s)"
| "bus_step (ReplyArrives k) s = reply_arrives k s"
| "bus_step (TimerFires i) s = timer_fires i s"

fun bus_run :: "bus_op list \<Rightarrow> request_bus \<Rightarrow> request_bus" where
  "bus_run [] s = s"
| "bus_run (x # xs) s = bus_run xs (bus_step x s)"

text \<open>What every run of requests and replies preserves.\<close>

definition req_ok :: "request_state \<Rightarrow> bool" where
  "req_ok r =
     ((promise r = None) = timer_armed r \<and> listening r = timer_armed r
      \<and> settle_calls r = (if promise r = None then 0 else 1))"

definition due_ok :: "request_bus \<Rightarrow> nat \<times> handler_result \<Rightarrow> bool" where
  "due_ok s d =
     (fst d < length (requests s)
      \<and> (\<exists>f. (rq_topic (requests s ! fst d), f) \<in> set (responders s)
              \<and> snd d = f (rq_payload (requests s ! fst d))))"

definition bus_inv :: "request_bus \<Rightarrow> bool" where
  "bus_inv s = ((\<forall>r\<in>set (requests s). req_ok r) \<and> (\<forall>d\<in>set (replies_due s). due_ok s d))"

definition settled_as :: "nat \<Rightarrow> settlement \<Rightarrow> request_bus \<Rightarrow> bool" where
  "settled_as i x s =
     (i < length (requests s) \<and> promise (requests s ! i) = Some x
      \<and> settle_calls (requests s ! i) = 1 \<and> \<not> timer_armed (requests s ! i)
      \<and> \<not> listening (requests s ! i))"

text \<open>A concrete run: a handler for topic \<open>sum\<close> that returns 3, and a request for it.\<close>

definition sum_handler :: "json \<Rightarrow> handler_result" where
  "sum_handler payload = Returns (Some (JNum 3))"

definition sum_requested :: "bus_op list" where
  "sum_requested = [OnRequest (str ''sum'') sum_handler, Request (str ''sum'') (JArr [JNum 1, JNum 2])]"

section \<open>Proofs: pending requests are listed by priority, then by age\<close>

lemma mset_insert_by: "mset (insert_by cmp x xs) = add_mset x (mset xs)"
  by (induction xs) auto

lemma mset_sort_by: "mset (sort_by cmp xs) = mset xs"
  by (induction xs) (auto simp: mset_insert_by)

lemma set_insert_by: "set (insert_by cmp x xs) = insert x (set xs)"
  by (induction xs) auto

lemma priorityWeight_inj: "priorityWeight p = priorityWeight q \<longleftrightarrow> p = q"
  by (cases p; cases q) auto

lemma listed_before_iff: "listed_before a b \<longleftrightarrow> compare_requests a b \<le> 0"
  by (cases "hr_priority a"; cases "hr_priority b")
     (auto simp: listed_before_def compare_requests_def Let_def)

lemma listed_before_total: "\<not> listed_before a b \<Longrightarrow> listed_before b a"
  by (cases "hr_priority a"; cases "hr_priority b") (auto simp: listed_before_def)

lemma listed_before_trans: "listed_before a b \<Longrightarrow> listed_before b c \<Longrightarrow> listed_before a c"
  by (auto simp: listed_before_def)

lemma sorted_insert_by:
  "sorted_wrt listed_before xs \<Longrightarrow> sorted_wrt listed_before (insert_by compare_requests x xs)"
proof (induction xs)
  case Nil
  then show ?case by simp
next
  case (Cons y ys)
  show ?case
  proof (cases "compare_requests x y \<le> 0")
    case True
    then have xy: "listed_before x y" by (simp add: listed_before_iff)
    have "\<forall>z\<in>set ys. listed_before x z"
      using Cons.prems xy listed_before_trans by auto
    with True xy Cons.prems show ?thesis by simp
  next
    case False
    then have yx: "listed_before y x"
      using listed_before_total by (simp add: listed_before_iff)
    with False Cons show ?thesis by (auto simp: set_insert_by)
  qed
qed

lemma sorted_sort_by: "sorted_wrt listed_before (sort_by compare_requests xs)"
  by (induction xs) (auto simp: sorted_insert_by)

text \<open>
  C9. \<open>getPendingRequests\<close> returns exactly the open requests, each once, with high
  before medium before low priority and, within one priority, the older request first.
  The set low at time 1, high at time 2, medium at time 3 comes back as
  high at 2, medium at 3, low at 1.
\<close>

theorem getPendingRequests_ordered:
  "mset (getPendingRequests s) = mset (map snd (pendingRequests s))
   \<and> sorted_wrt listed_before (getPendingRequests s)
   \<and> getPendingRequests
       (new_coordinator\<lparr>pendingRequests :=
          [(1, example_request 1 Low 1), (2, example_request 2 High 2),
           (3, example_request 3 Medium 3)]\<rparr>)
     = [example_request 2 High 2, example_request 3 Medium 3, example_request 1 Low 1]"
  by (simp add: getPendingRequests_def mset_sort_by sorted_sort_by compare_requests_def
      example_request_def new_coordinator_def)


section \<open>Proofs: approval time-outs and review requests\<close>

lemma map_of_update: "map_of (AList.update k v al) = (map_of al)(k \<mapsto> v)"
  by (simp add: update_conv')

lemma map_of_delete: "map_of (AList.delete k al) = (map_of al)(k := None)"
  by (simp add: delete_conv')

lemma fresh_new: "fresh_from new_coordinator"
  by (simp add: fresh_from_def new_coordinator_def)

lemma fresh_step: "fresh_from s \<Longrightarrow> fresh_from (coord_step x s)"
  by (cases x)
     (auto simp: fresh_from_def setAgentPolicy_def handleDecision_def requestHumanApproval_def
        requestHumanReview_def requestHumanAttention_def respondToRequest_def run_waiter_def
        timeout_fires_def resolve_def Let_def map_of_update map_of_delete
        split: option.splits waiter.splits if_splits)

lemma fresh_run: "fresh_from s \<Longrightarrow> fresh_from (coord_run xs s)"
  by (induction xs arbitrary: s) (auto simp: fresh_step)

lemma review_open_step: "review_open i r s \<Longrightarrow> review_open i r (coord_step x s)"
  by (cases x)
     (auto simp: review_open_def setAgentPolicy_def handleDecision_def requestHumanApproval_def
        requestHumanReview_def requestHumanAttention_def respondToRequest_def run_waiter_def
        timeout_fires_def resolve_def Let_def map_of_update map_of_delete
        split: option.splits waiter.splits if_splits)

lemma review_open_run: "review_open i r s \<Longrightarrow> review_open i r (coord_run xs s)"
  by (induction xs arbitrary: s) (auto simp: review_open_step)







text \<open>
  C10. A decision on the review path (no approval required, confidence below the
  threshold) puts a request of type review into \<open>pendingRequests\<close> and registers no
  listener for it. After any sequence of coordinator calls and callbacks the request is
  still pending and listed by \<open>getPendingRequests\<close>, and \<open>respondToRequest\<close> with its
  id leaves \<open>pendingRequests\<close> as it is.
\<close>

theorem review_request_never_removed:
  assumes "\<not> needs_approval (coord_run ops0 new_coordinator) msg" and "below_threshold msg"
  shows "(let s0 = coord_run ops0 new_coordinator; i = next_id s0;
              s1 = snd (handleDecision msg now s0);
              req = \<lparr>hr_id = i, hr_type = Review, hr_priority = Medium, hr_from = msg_agentId msg,
                     hr_context = msg, hr_timestamp = now, hr_timeout = None\<rparr>
          in map_of (pendingRequests s1) i = Some req \<and> waiters s1 i = None
             \<and> (\<forall>ops r. map_of (pendingRequests (coord_run ops s1)) i = Some req
                     \<and> req \<in> set (getPendingRequests (coord_run ops s1))
                     \<and> pendingRequests (respondToRequest i r (coord_run ops s1))
                         = pendingRequests (coord_run ops s1)))"
proof -
  define s0 where "s0 = coord_run ops0 new_coordinator"
  define i where "i = next_id s0"
  define s1 where "s1 = snd (handleDecision msg now s0)"
  define req where "req = \<lparr>hr_id = i, hr_type = Review, hr_priority = Medium, hr_from = msg_agentId msg,
                     hr_context = msg, hr_timestamp = now, hr_timeout = None\<rparr>"
  have fr: "fresh_from s0"
    unfolding s0_def by (rule fresh_run [OF fresh_new])
  have op: "review_open i req s1"
    using fr assms unfolding s1_def i_def req_def s0_def [symmetric]
    by (simp add: handleDecision_def requestHumanReview_def Let_def review_open_def
        fresh_from_def map_of_update)
  have run: "review_open i req (coord_run ops s1)" for ops
    by (rule review_open_run [OF op])
  have listed: "req \<in> set (getPendingRequests (coord_run ops s1))" for ops
  proof -
    have "map_of (pendingRequests (coord_run ops s1)) i = Some req"
      using run [of ops] by (simp add: review_open_def)
    then have "(i, req) \<in> set (pendingRequests (coord_run ops s1))"
      by (rule map_of_SomeD)
    then have "req \<in> set (map snd (pendingRequests (coord_run ops s1)))"
      by force
    then show ?thesis
      by (metis getPendingRequests_def mset_sort_by set_mset_mset)
  qed
  have resp: "pendingRequests (respondToRequest i r (coord_run ops s1)) = pendingRequests (coord_run ops s1)" for ops r
    using run [of ops] by (simp add: review_open_def respondToRequest_def Let_def)
  show ?thesis
    unfolding Let_def s0_def [symmetric] i_def [symmetric] s1_def [symmetric] req_def [symmetric]
    using op run listed resp by (simp add: review_open_def)
qed

theorem review_request_never_removed_witness:
  "\<not> needs_approval (coord_run [] new_coordinator) example_msg \<and> below_threshold example_msg
   \<and> map_of (pendingRequests (coord_run [Respond 0 (JBool True), TimeoutFires 0]
          (snd (handleDecision example_msg 7 new_coordinator)))) 0
       = Some \<lparr>hr_id = 0, hr_type = Review, hr_priority = Medium, hr_from = ''a1'',
                hr_context = example_msg, hr_timestamp = 7, hr_timeout = None\<rparr>"
proof -
  have a: "\<not> needs_approval (coord_run [] new_coordinator) example_msg"
    by (simp add: needs_approval_def new_coordinator_def)
  have b: "below_threshold example_msg"
    by (simp add: below_threshold_def example_msg_def humanAttentionThreshold_def)
  have n: "next_id new_coordinator = 0" "msg_agentId example_msg = ''a1''"
    by (simp_all add: new_coordinator_def example_msg_def)
  have "map_of (pendingRequests (coord_run ops (snd (handleDecision example_msg 7 new_coordinator)))) 0
       = Some \<lparr>hr_id = 0, hr_type = Review, hr_priority = Medium, hr_from = ''a1'',
                hr_context = example_msg, hr_timestamp = 7, hr_timeout = None\<rparr>" for ops
    using review_request_never_removed [OF a b, of 7] n by (simp add: Let_def)
  from this [of "[Respond 0 (JBool True), TimeoutFires 0]"] a b show ?thesis
    by blast
qed

section \<open>Proofs: the agent table\<close>

lemma length_update_le: "length (AList.update k v al) \<le> Suc (length al)"
  by (induction al) auto

lemma length_delete_le: "length (AList.delete k al) \<le> length al"
  by (simp add: AList.delete_eq)

lemma mux_step_max: "maxConcurrent (mux_step x s) = maxConcurrent s"
  by (cases x)
     (auto simp: spawnAgent_def killAgent_def killAll_def child_exit_def Let_def
        split: option.splits)

lemma mux_step_bound:
  "length (agents s) \<le> maxConcurrent s \<Longrightarrow> length (agents (mux_step x s)) \<le> maxConcurrent s"
proof (cases x)
  case (Spawn options uuid)
  assume "length (agents s) \<le> maxConcurrent s"
  then show ?thesis
    using Spawn length_update_le [of "choose_id options uuid" "length (children s)" "agents s"]
    by (auto simp: spawnAgent_def Let_def)
next
  case (Kill a)
  assume "length (agents s) \<le> maxConcurrent s"
  then show ?thesis
    using Kill length_delete_le [of a "agents s"]
    by (auto simp: killAgent_def split: option.splits)
next
  case KillAll
  then show ?thesis by (simp add: killAll_def)
next
  case (ChildExit h code)
  assume "length (agents s) \<le> maxConcurrent s"
  then show ?thesis
    using ChildExit length_delete_le [of "owner (children s ! h)" "agents s"]
    by (auto simp: child_exit_def Let_def)
qed

lemma mux_run_bound:
  "length (agents s) \<le> maxConcurrent s \<Longrightarrow>
   length (agents (mux_run xs s)) \<le> maxConcurrent s \<and> maxConcurrent (mux_run xs s) = maxConcurrent s"
proof (induction xs arbitrary: s)
  case Nil
  then show ?case by simp
next
  case (Cons x xs)
  have "length (agents (mux_step x s)) \<le> maxConcurrent (mux_step x s)"
    using mux_step_bound [OF Cons.prems] by (simp add: mux_step_max)
  from Cons.IH [OF this] show ?case by (simp add: mux_step_max)
qed

text \<open>
  C1. Starting from a new multiplexer with maximum \<open>n\<close>, after any sequence of
  \<open>spawnAgent\<close> calls (and of kills and process exits) the agent table holds at most \<open>n\<close>
  agents. A \<open>spawnAgent\<close> call made while the table holds \<open>n\<close> agents or more fails with
  the capacity error and returns the multiplexer as it was: no handle is registered and
  no \<open>agent:spawn\<close> is emitted.
\<close>

theorem spawn_respects_capacity:
  "length (agents (mux_run ops (new_mux n))) \<le> n
   \<and> (maxConcurrent s \<le> length (agents s) \<longrightarrow>
        spawnAgent options uuid s = (Inl (CapacityExceeded (maxConcurrent s)), s))"
proof -
  have "length (agents (new_mux n)) \<le> maxConcurrent (new_mux n)"
    by (simp add: new_mux_def)
  from mux_run_bound [OF this] have "length (agents (mux_run ops (new_mux n))) \<le> n"
    by (simp add: new_mux_def)
  then show ?thesis by (simp add: spawnAgent_def)
qed

theorem spawn_respects_capacity_witness:
  "length (agents (mux_run [Spawn (with_id ''a'') ''u1'', Spawn (with_id ''b'') ''u2''] (new_mux 2))) = 2
   \<and> spawnAgent (with_id ''c'') ''u3''
        (mux_run [Spawn (with_id ''a'') ''u1'', Spawn (with_id ''b'') ''u2''] (new_mux 2))
      = (Inl (CapacityExceeded 2),
         mux_run [Spawn (with_id ''a'') ''u1'', Spawn (with_id ''b'') ''u2''] (new_mux 2))"
proof -
  have l: "length (agents (mux_run [Spawn (with_id ''a'') ''u1'', Spawn (with_id ''b'') ''u2''] (new_mux 2))) = 2"
    by (simp add: spawnAgent_def new_mux_def with_id_def choose_id_def Let_def)
  have m: "maxConcurrent (mux_run [Spawn (with_id ''a'') ''u1'', Spawn (with_id ''b'') ''u2''] (new_mux 2)) = 2"
    by (simp add: spawnAgent_def new_mux_def with_id_def choose_id_def Let_def)
  from spawn_respects_capacity
    [of "[]" 0 "mux_run [Spawn (with_id ''a'') ''u1'', Spawn (with_id ''b'') ''u2''] (new_mux 2)"
        "with_id ''c''" "''u3''"]
  show ?thesis using l m by simp
qed

section \<open>Proofs: killing and shutting down twice\<close>

lemma killAgent_absent: "map_of (agents s) a = None \<Longrightarrow> killAgent a s = s"
  by (simp add: killAgent_def)

lemma killAgent_removes: "map_of (agents (killAgent a s)) a = None"
  by (auto simp: killAgent_def map_of_delete split: option.splits)

lemma child_exit_keeps_absent:
  "map_of (agents s) a = None \<Longrightarrow> map_of (agents (child_exit h code s)) a = None"
  by (simp add: child_exit_def Let_def map_of_delete)

text \<open>
  C7, as the code has it. A second \<open>killAgent\<close> with the same id changes nothing and
  emits nothing, also when the killed process has exited in between: no further
  \<open>kill()\<close> is sent, so no second \<open>agent:exit\<close> follows from it. A second \<open>shutdown\<close> of
  a peer raises no error and its kill is such a no-op, but every \<open>shutdown\<close> call emits
  \<open>peer:leave\<close>, the second one too.
\<close>

theorem second_kill_is_noop_and_shutdown_leaves_again:
  "killAgent a (killAgent a s) = killAgent a s
   \<and> killAgent a (child_exit h code (killAgent a s)) = child_exit h code (killAgent a s)
   \<and> mux_emitted (killAgent a s) = mux_emitted s
   \<and> fst (shutdown p (shutdown p w)) = fst (shutdown p w)
   \<and> snd (shutdown p (shutdown p w)) = snd (shutdown p w) @ [PeerLeave (nodeId p)]"
proof -
  have 1: "killAgent a (killAgent a s) = killAgent a s"
    by (rule killAgent_absent [OF killAgent_removes])
  have 2: "killAgent a (child_exit h code (killAgent a s)) = child_exit h code (killAgent a s)"
    by (rule killAgent_absent [OF child_exit_keeps_absent [OF killAgent_removes]])
  have 3: "mux_emitted (killAgent a s) = mux_emitted s"
    by (simp add: killAgent_def split: option.splits)
  have 4: "fst (shutdown p (shutdown p w)) = fst (shutdown p w)"
    by (simp add: shutdown_def Let_def killAgent_absent [OF killAgent_removes])
  have 5: "snd (shutdown p (shutdown p w)) = snd (shutdown p w) @ [PeerLeave (nodeId p)]"
    by (simp add: shutdown_def Let_def)
  from 1 2 3 4 5 show ?thesis by blast
qed

text \<open>
  The claim as written fails: shutting the peer of agent \<open>a\<close> down twice puts two
  \<open>peer:leave\<close> events on the bus.
\<close>

theorem second_shutdown_emits_peer_leave:
  "snd (shutdown peer_a (shutdown peer_a (two_agents, []))) = [PeerLeave ''n1'', PeerLeave ''n1'']"
  by (simp add: shutdown_def peer_a_def Let_def)

section \<open>Proofs: broadcast\<close>













section \<open>Proofs: logical streams\<close>

lemma map_of_map_entry':
  "map_of (AList.map_entry k f al) = (map_of al)(k := map_option f (map_of al k))"
  by (auto simp: map_of_map_entry fun_eq_iff split: option.splits)

lemma keys_below_update:
  "keys_below n al \<Longrightarrow> snd k \<le> n \<Longrightarrow> keys_below n (AList.update k v al)"
  by (simp add: keys_below_def dom_update)

lemma keys_below_delete: "keys_below n al \<Longrightarrow> keys_below n (AList.delete k al)"
  by (auto simp: keys_below_def AList.delete_eq)

lemma keys_below_mono: "keys_below n al \<Longrightarrow> n \<le> m \<Longrightarrow> keys_below m al"
  by (fastforce simp: keys_below_def)


lemma get_or_create_meta:
  "\<forall>k. map_of (streams s) k = None \<longleftrightarrow> map_of (metadata s) k = None \<Longrightarrow>
   map_of (metadata (get_or_create msg k now s)) k
     = Some (case map_of (metadata s) k of
               None \<Rightarrow> \<lparr>sm_agentId = or_else (field msg (str ''agentId'')) (fst k),
                       sm_streamId = fst k,
                       sm_type = or_else (field msg (str ''type'')) (JStr (str ''response'')),
                       started = now, chunks = 0\<rparr>
             | Some m \<Rightarrow> m)"
proof (cases "map_of (streams s) k")
  case None
  assume "\<forall>k. map_of (streams s) k = None \<longleftrightarrow> map_of (metadata s) k = None"
  with None have "map_of (metadata s) k = None" by simp
  with None show ?thesis
    by (simp add: get_or_create_def emit_def Let_def update_conv')
next
  case (Some st)
  assume "\<forall>k. map_of (streams s) k = None \<longleftrightarrow> map_of (metadata s) k = None"
  with Some obtain m where "map_of (metadata s) k = Some m"
    by (metis option.exhaust option.distinct(1))
  with Some show ?thesis
    by (simp add: get_or_create_def)
qed

lemma get_or_create_facts:
  fixes msg :: json and now :: int
  assumes "sp_inv s" and "snd k \<le> next_ref s"
  defines "s1 \<equiv> get_or_create msg k now s"
  shows "sp_inv s1"
    and "next_ref s1 = next_ref s"
    and "\<forall>j. j \<noteq> k \<longrightarrow> map_of (metadata s1) j = map_of (metadata s) j"
    and "\<forall>j. j \<noteq> k \<longrightarrow> map_of (streams s1) j = map_of (streams s) j"
    and "buffers s1 = buffers s"
proof -
  from assms(1) have same: "\<forall>k. map_of (streams s) k = None \<longleftrightarrow> map_of (metadata s) k = None"
    by (simp add: sp_inv_def)
  show "sp_inv s1"
  proof (cases "map_of (streams s) k")
    case None
    from assms(1) have kb: "keys_below (next_ref s) (metadata s)"
      and d1: "distinct (map fst (streams s))" and d2: "distinct (map fst (metadata s))"
      by (simp_all add: sp_inv_def)
    have eq: "s1 = emit (StreamCreated k \<lparr>sm_agentId = or_else (field msg (str ''agentId'')) (fst k),
                       sm_streamId = fst k,
                       sm_type = or_else (field msg (str ''type'')) (JStr (str ''response'')),
                       started = now, chunks = 0\<rparr>)
                (s\<lparr>streams := AList.update k \<lparr>written = [], ended = False\<rparr> (streams s),
                   metadata := AList.update k \<lparr>sm_agentId = or_else (field msg (str ''agentId'')) (fst k),
                       sm_streamId = fst k,
                       sm_type = or_else (field msg (str ''type'')) (JStr (str ''response'')),
                       started = now, chunks = 0\<rparr> (metadata s)\<rparr>)"
      unfolding s1_def using None by (simp add: get_or_create_def Let_def)
    show ?thesis
      unfolding sp_inv_def eq emit_def
      using d1 d2 same keys_below_update [OF kb assms(2)]
      by (simp add: distinct_update update_conv')
  next
    case (Some a)
    with assms(1) show ?thesis
      unfolding s1_def by (simp add: get_or_create_def)
  qed
  show "next_ref s1 = next_ref s"
    unfolding s1_def by (simp add: get_or_create_def emit_def Let_def split: option.splits)
  show "\<forall>j. j \<noteq> k \<longrightarrow> map_of (metadata s1) j = map_of (metadata s) j"
    unfolding s1_def by (simp add: get_or_create_def emit_def Let_def update_conv' split: option.splits)
  show "\<forall>j. j \<noteq> k \<longrightarrow> map_of (streams s1) j = map_of (streams s) j"
    unfolding s1_def by (simp add: get_or_create_def emit_def Let_def update_conv' split: option.splits)
  show "buffers s1 = buffers s"
    unfolding s1_def by (simp add: get_or_create_def emit_def Let_def split: option.splits)
qed

lemma dispatch_metadata:
  "metadata (dispatch msg k m s) = (if is_end msg then AList.delete k (metadata s) else metadata s)"
  by (simp add: dispatch_def Let_def is_end_def emit_def stream_write_def cleanup_def)

lemma dispatch_rest:
  "next_ref (dispatch msg k m s) = next_ref s \<and> buffers (dispatch msg k m s) = buffers s"
  by (simp add: dispatch_def Let_def emit_def stream_write_def cleanup_def)

lemma dispatch_streams:
  "streams (dispatch msg k m s) =
     (if field msg (str ''type'') = Some (JStr (str ''stream:start'')) then streams s
      else if is_end msg then AList.delete k (AList.map_entry k (\<lambda>st. st\<lparr>ended := True\<rparr>) (streams s))
      else AList.map_entry k (\<lambda>st. st\<lparr>written := written st @
             [stringify_line (if field msg (str ''type'') = Some (JStr (str ''stream:chunk''))
                              then field msg (str ''data'') else Some msg)]\<rparr>) (streams s))"
  by (simp add: dispatch_def Let_def is_end_def emit_def stream_write_def cleanup_def)

lemma map_entry_None: "map_of (AList.map_entry k f al) j = None \<longleftrightarrow> map_of al j = None"
  by (simp add: map_of_map_entry')

lemma dispatch_effect:
  "metadata (dispatch msg k m s) = (if is_end msg then AList.delete k (metadata s) else metadata s)
   \<and> (\<forall>j. map_of (streams (dispatch msg k m s)) j = None \<longleftrightarrow> (map_of (streams s) j = None \<or> (is_end msg \<and> j = k)))
   \<and> (distinct (map fst (streams s)) \<longrightarrow> distinct (map fst (streams (dispatch msg k m s))))
   \<and> next_ref (dispatch msg k m s) = next_ref s \<and> buffers (dispatch msg k m s) = buffers s"
proof -
  have a: "\<forall>j. map_of (streams (dispatch msg k m s)) j = None \<longleftrightarrow> (map_of (streams s) j = None \<or> (is_end msg \<and> j = k))"
    unfolding dispatch_streams
    by (simp add: map_entry_None delete_conv' is_end_def del: map_of_eq_None_iff)
  have b: "distinct (map fst (streams s)) \<longrightarrow> distinct (map fst (streams (dispatch msg k m s)))"
    unfolding dispatch_streams by (simp add: distinct_delete distinct_map_entry)
  from a b dispatch_metadata dispatch_rest show ?thesis by blast
qed

lemma routeMessage_effect:
  fixes msg :: json and now :: int and s :: splitter
  defines "k \<equiv> stream_key_of msg s"
  defines "s1 \<equiv> get_or_create msg k now (s\<lparr>next_ref := Suc (next_ref s)\<rparr>)"
  assumes "msg \<noteq> JNull" and "map_of (metadata s1) k = Some m0"
  shows "\<exists>s'. routeMessage msg now s = Some s'
     \<and> metadata s' = (if is_end msg then AList.delete k (AList.update k (m0\<lparr>chunks := Suc (chunks m0)\<rparr>) (metadata s1))
                      else AList.update k (m0\<lparr>chunks := Suc (chunks m0)\<rparr>) (metadata s1))
     \<and> (\<forall>j. map_of (streams s') j = None \<longleftrightarrow> (map_of (streams s1) j = None \<or> (is_end msg \<and> j = k)))
     \<and> (distinct (map fst (streams s1)) \<longrightarrow> distinct (map fst (streams s')))
     \<and> next_ref s' = next_ref s1 \<and> buffers s' = buffers s1"
proof -
  define s2 where "s2 = s1\<lparr>metadata := AList.update k (m0\<lparr>chunks := Suc (chunks m0)\<rparr>) (metadata s1)\<rparr>"
  have r: "routeMessage msg now s = Some (dispatch msg k (m0\<lparr>chunks := Suc (chunks m0)\<rparr>) s2)"
    using assms(3,4) unfolding routeMessage_def Let_def s2_def s1_def k_def by simp
  have p: "metadata s2 = AList.update k (m0\<lparr>chunks := Suc (chunks m0)\<rparr>) (metadata s1)"
    "streams s2 = streams s1" "next_ref s2 = next_ref s1" "buffers s2 = buffers s1"
    by (simp_all add: s2_def)
  from dispatch_effect [of msg k "m0\<lparr>chunks := Suc (chunks m0)\<rparr>" s2] r show ?thesis
    unfolding p by blast
qed

lemma stream_key_bound: "snd (stream_key_of msg s) \<le> Suc (next_ref s)"
  by (simp add: stream_key_of_def Let_def)

lemma routeMessage_step:
  assumes inv: "sp_inv s" and msg: "msg \<noteq> JNull"
  shows "\<exists>s'. routeMessage msg now s = Some s' \<and> sp_inv s'
     \<and> map_option chunks (map_of (metadata s') (stream_key_of msg s))
        = (if is_end msg then None
           else Some (case map_of (metadata s) (stream_key_of msg s) of None \<Rightarrow> 1 | Some m \<Rightarrow> Suc (chunks m)))
     \<and> (is_end msg \<longrightarrow> map_of (streams s') (stream_key_of msg s) = None)
     \<and> (\<forall>j. j \<noteq> stream_key_of msg s \<longrightarrow> map_of (metadata s') j = map_of (metadata s) j)
     \<and> buffers s' = buffers s"
proof -
  define k where "k = stream_key_of msg s"
  define s0 where "s0 = s\<lparr>next_ref := Suc (next_ref s)\<rparr>"
  define s1 where "s1 = get_or_create msg k now s0"
  have inv0: "sp_inv s0"
    using inv keys_below_mono [of "next_ref s" "metadata s" "Suc (next_ref s)"]
    unfolding s0_def sp_inv_def by simp
  have kb: "snd k \<le> next_ref s0"
    unfolding k_def s0_def using stream_key_bound by simp
  note f = get_or_create_facts [OF inv0 kb, of msg now, folded s1_def]
  have same0: "\<forall>k. map_of (streams s0) k = None \<longleftrightarrow> map_of (metadata s0) k = None"
    using inv0 by (simp add: sp_inv_def)
  define m1 where "m1 = (case map_of (metadata s0) k of
               None \<Rightarrow> \<lparr>sm_agentId = or_else (field msg (str ''agentId'')) (fst k),
                       sm_streamId = fst k,
                       sm_type = or_else (field msg (str ''type'')) (JStr (str ''response'')),
                       started = now, chunks = 0\<rparr>
             | Some m \<Rightarrow> m)"
  have m1: "map_of (metadata s1) k = Some m1"
    unfolding s1_def m1_def by (rule get_or_create_meta [OF same0])
  have c1: "Suc (chunks m1) = (case map_of (metadata s) k of None \<Rightarrow> 1 | Some m \<Rightarrow> Suc (chunks m))"
    unfolding m1_def s0_def by (simp split: option.splits)
  from routeMessage_effect [OF msg, of s now m1] m1
  obtain s' where r: "routeMessage msg now s = Some s'"
    and md: "metadata s' = (if is_end msg then AList.delete k (AList.update k (m1\<lparr>chunks := Suc (chunks m1)\<rparr>) (metadata s1))
                      else AList.update k (m1\<lparr>chunks := Suc (chunks m1)\<rparr>) (metadata s1))"
    and st: "\<forall>j. map_of (streams s') j = None \<longleftrightarrow> (map_of (streams s1) j = None \<or> (is_end msg \<and> j = k))"
    and ds: "distinct (map fst (streams s1)) \<longrightarrow> distinct (map fst (streams s'))"
    and nr: "next_ref s' = next_ref s1" and bf: "buffers s' = buffers s1"
    unfolding k_def s1_def s0_def by blast
  have inv1: "sp_inv s1" by (rule f(1))
  have same1: "\<forall>j. map_of (streams s1) j = None \<longleftrightarrow> map_of (metadata s1) j = None"
    using inv1 by (simp add: sp_inv_def)
  have inv': "sp_inv s'"
    unfolding sp_inv_def
  proof (intro conjI)
    show "distinct (map fst (streams s'))" using ds inv1 by (simp add: sp_inv_def)
    show "distinct (map fst (metadata s'))"
      using inv1 by (simp add: md sp_inv_def distinct_update distinct_delete)
    show "\<forall>j. (map_of (streams s') j = None) = (map_of (metadata s') j = None)"
      using st same1 m1 by (auto simp: md update_conv' delete_conv')
    show "keys_below (next_ref s') (metadata s')"
      using inv1 kb f(2) by (simp add: md nr sp_inv_def keys_below_update keys_below_delete)
  qed
  have ch: "map_option chunks (map_of (metadata s') k)
        = (if is_end msg then None
           else Some (case map_of (metadata s) k of None \<Rightarrow> 1 | Some m \<Rightarrow> Suc (chunks m)))"
    using c1 by (simp add: md update_conv' delete_conv')
  have en: "is_end msg \<longrightarrow> map_of (streams s') k = None"
    using st by blast
  have ot: "\<forall>j. j \<noteq> k \<longrightarrow> map_of (metadata s') j = map_of (metadata s) j"
    using f(3) by (simp add: md update_conv' delete_conv' s0_def)
  have bf': "buffers s' = buffers s"
    using bf f(5) by (simp add: s0_def)
  from r inv' ch en ot bf' show ?thesis
    unfolding k_def by blast
qed

lemma route_all_inv: "sp_inv s \<Longrightarrow> sp_inv (route_all ms s)"
proof (induction ms arbitrary: s)
  case Nil
  then show ?case by simp
next
  case (Cons a ms)
  obtain msg now where a: "a = (msg, now)" by (cases a)
  have "sp_inv (case routeMessage msg now s of None \<Rightarrow> s | Some s' \<Rightarrow> s')"
  proof (cases "msg = JNull")
    case True
    then show ?thesis using Cons.prems by (simp add: routeMessage_def)
  next
    case False
    from routeMessage_step [OF Cons.prems False, of now] show ?thesis by auto
  qed
  from Cons.IH [OF this] a show ?case by simp
qed









lemma no_entry_for_id:
  assumes "\<forall>e\<in>set al. sm_streamId (snd e) = fst (fst e) \<and> (by_value (fst (fst e)) \<longrightarrow> snd (fst e) = 0)"
    and "by_value sid" and "(sid, 0) \<notin> fst ` set al"
  shows "filter (\<lambda>m. sm_streamId m = sid) (map snd al) = []"
proof -
  have "sm_streamId (snd e) \<noteq> sid" if "e \<in> set al" for e
  proof
    assume "sm_streamId (snd e) = sid"
    with assms(1,2) that have "fst e = (sid, 0)"
      by (metis prod.collapse)
    with that assms(3) show False by force
  qed
  then show ?thesis by (auto simp: filter_empty_conv)
qed

lemma one_entry_per_id:
  assumes "distinct (map fst al)"
    and "\<forall>e\<in>set al. sm_streamId (snd e) = fst (fst e) \<and> (by_value (fst (fst e)) \<longrightarrow> snd (fst e) = 0)"
    and "by_value sid"
  shows "length (filter (\<lambda>m. sm_streamId m = sid) (map snd al)) \<le> 1"
  using assms
proof (induction al)
  case Nil
  then show ?case by simp
next
  case (Cons e al)
  show ?case
  proof (cases "sm_streamId (snd e) = sid")
    case False
    with Cons show ?thesis by simp
  next
    case True
    with Cons.prems have "fst e = (sid, 0)" by (metis list.set_intros(1) prod.collapse)
    with Cons.prems(1) have "(sid, 0) \<notin> fst ` set al" by auto
    with Cons.prems have "filter (\<lambda>m. sm_streamId m = sid) (map snd al) = []"
      by (intro no_entry_for_id) auto
    with True show ?thesis by simp
  qed
qed














section \<open>Proofs: reassembly of a message split over two chunks\<close>

lemma accent_decoded:
  "toString accent_bytes = [123, 34, 97, 34, 58, 34, 233, 34, 125]"
  "toString (take 7 accent_bytes) = [123, 34, 97, 34, 58, 34, 65533]"
  "toString (drop 7 accent_bytes) = [65533, 34, 125]"
  by (simp_all add: accent_bytes_def toString_def continuation_def)

lemma accent_text: "stringify accent_message = [123, 34, 97, 34, 58, 34, 233, 34, 125]"
  by (simp add: accent_message_def quote_def is_high_surrogate_def is_low_surrogate_def)

lemma replaced_text: "stringify replaced_message = [123, 34, 97, 34, 58, 34, 65533, 65533, 34, 125]"
  by (simp add: replaced_message_def quote_def is_high_surrogate_def is_low_surrogate_def)

lemmas parse_defs = json_parse_def cons_to_def object_of_def is_digit_def parse_literal_def
  parse_number_def unescape_def hex_value_def

lemma accent_parses:
  "json_parse [123, 34, 97, 34, 58, 34, 233, 34, 125] = Some accent_message"
  by (simp add: parse_defs accent_message_def)

lemma first_chunk_fails: "json_parse [123, 34, 97, 34, 58, 34, 65533] = None"
  by (simp add: parse_defs)

lemma second_chunk_fails: "json_parse [65533, 34, 125] = None"
  by (simp add: parse_defs)

lemma replaced_parses:
  "json_parse [123, 34, 97, 34, 58, 34, 65533, 65533, 34, 125] = Some replaced_message"
  by (simp add: parse_defs replaced_message_def)

text \<open>
  For any parser: a first part that is one non-blank line and does not parse is kept in
  the reassembly buffer and nothing else changes; a second part that does not parse on
  its own is appended, and when the whole parses the message is routed and the buffer
  cleared.
\<close>

lemma single_line: "10 \<notin> set a \<Longrightarrow> split_lines a = [a]"
  by (induction a) auto

lemma first_part_buffered:
  assumes "10 \<notin> set a" and "\<not> blank a" and "parse a = None"
    and "map_of (buffers s) ''partial'' = None"
  shows "fold (process_line parse now) (split_lines a) s
           = s\<lparr>buffers := AList.update ''partial'' a (buffers s)\<rparr>"
  using assms by (simp add: single_line process_line_def handlePartialMessage_def Let_def)

lemma second_part_routed:
  assumes "10 \<notin> set b" and "\<not> blank b" and "parse b = None"
    and "map_of (buffers s) ''partial'' = Some a" and "parse (a @ b) = Some m"
    and "routeMessage m now s = Some t"
  shows "fold (process_line parse now) (split_lines b) s
           = t\<lparr>buffers := AList.delete ''partial'' (buffers t)\<rparr>"
  using assms by (simp add: single_line process_line_def handlePartialMessage_def Let_def)

lemma route_replaced:
  "routeMessage replaced_message 0 (new_splitter\<lparr>buffers := bs\<rparr>)
     = Some \<lparr>streams = [((JStr (str ''default''), 0),
                            \<lparr>written = [stringify_line (Some replaced_message)], ended = False\<rparr>)],
              metadata = [((JStr (str ''default''), 0),
                            \<lparr>sm_agentId = JStr (str ''default''), sm_streamId = JStr (str ''default''),
                             sm_type = JStr (str ''response''), started = 0, chunks = 1\<rparr>)],
              buffers = bs,
              sp_emitted = [StreamCreated (JStr (str ''default''), 0)
                              \<lparr>sm_agentId = JStr (str ''default''), sm_streamId = JStr (str ''default''),
                               sm_type = JStr (str ''response''), started = 0, chunks = 0\<rparr>],
              next_ref = 1\<rparr>"
  by (simp add: replaced_message_def new_splitter_def routeMessage_def
      stream_key_of_def get_or_create_def dispatch_def or_else_def emit_def
      stream_write_def Let_def)

lemma not_blank_chunks:
  "\<not> blank [123, 34, 97, 34, 58, 34, 65533]" "\<not> blank [65533, 34, 125]"
  by (simp_all add: blank_def is_js_space_def)

text \<open>
  C3 does not hold of the code when the split falls inside a multi-byte character.
  The bytes of \<open>accent_message\<close> decode and parse to the message when they arrive in
  one chunk. Split after byte 7, between the two bytes of the letter, the first chunk is
  buffered and dispatches nothing, but each chunk is decoded on its own, the half
  letters become U+FFFD, and the message routed after the second chunk is
  \<open>replaced_message\<close>, with two replacement characters: not the message that was sent.
\<close>

theorem split_inside_character_corrupts_message:
  "toString accent_bytes = stringify accent_message
   \<and> json_parse (toString accent_bytes) = Some accent_message
   \<and> processChunk json_parse (take 7 accent_bytes) 0 new_splitter
       = new_splitter\<lparr>buffers := [(''partial'', toString (take 7 accent_bytes))]\<rparr>
   \<and> map (\<lambda>st. written (snd st))
         (streams (processChunk json_parse (drop 7 accent_bytes) 0
                     (processChunk json_parse (take 7 accent_bytes) 0 new_splitter)))
       = [[stringify_line (Some replaced_message)]]
   \<and> stringify replaced_message \<noteq> stringify accent_message"
proof -
  have 1: "toString accent_bytes = stringify accent_message"
    by (simp add: accent_decoded accent_text)
  have 2: "json_parse (toString accent_bytes) = Some accent_message"
    by (simp add: accent_decoded accent_parses)
  have 3: "processChunk json_parse (take 7 accent_bytes) 0 new_splitter
       = new_splitter\<lparr>buffers := [(''partial'', toString (take 7 accent_bytes))]\<rparr>"
    unfolding processChunk_def Let_def accent_decoded
    using first_part_buffered [of "[123, 34, 97, 34, 58, 34, 65533]" json_parse new_splitter 0]
    by (simp add: not_blank_chunks first_chunk_fails new_splitter_def)
  have 4: "processChunk json_parse (drop 7 accent_bytes) 0
             (new_splitter\<lparr>buffers := [(''partial'', [123, 34, 97, 34, 58, 34, 65533])]\<rparr>)
           = the (routeMessage replaced_message 0
                    (new_splitter\<lparr>buffers := [(''partial'', [123, 34, 97, 34, 58, 34, 65533])]\<rparr>))
               \<lparr>buffers := []\<rparr>"
    unfolding processChunk_def Let_def accent_decoded
    using second_part_routed [of "[65533, 34, 125]" json_parse
        "new_splitter\<lparr>buffers := [(''partial'', [123, 34, 97, 34, 58, 34, 65533])]\<rparr>"
        "[123, 34, 97, 34, 58, 34, 65533]" replaced_message 0, OF _ _ _ _ _ route_replaced]
    by (simp add: not_blank_chunks second_chunk_fails replaced_parses route_replaced)
  have 5: "stringify replaced_message \<noteq> stringify accent_message"
    by (simp add: accent_text replaced_text)
  from 1 2 3 show ?thesis
    unfolding 3 accent_decoded 4 by (simp add: route_replaced 5 accent_decoded)
qed

section \<open>Proofs: the router's queue\<close>

lemma shifted_append: "shifted (xs @ ys) = shifted xs @ shifted ys"
  by (induction xs rule: shifted.induct) auto

lemma shifted_calls: "shifted (map call_action cs) = []"
  by (induction cs) (auto simp: call_action_def)

lemma shifted_settled: "shifted (handleRoute_settled c) = []"
  by (simp add: handleRoute_settled_def Let_def
      split: handler_outcome.splits thrown.splits option.splits)

lemma called_append: "called (xs @ ys) = called xs @ called ys"
  by (induction xs rule: called.induct) auto

lemma called_settled: "called (handleRoute_settled c) = []"
  by (simp add: handleRoute_settled_def Let_def
      split: handler_outcome.splits thrown.splits option.splits)

lemma outstanding_append:
  "outstanding n (xs @ ys) = (case outstanding n xs of None \<Rightarrow> None | Some k \<Rightarrow> outstanding k ys)"
  by (induction n xs rule: outstanding.induct) auto

lemma outstanding_calls: "outstanding n (map call_action cs) = Some (n + length cs)"
  by (induction cs arbitrary: n) (auto simp: call_action_def)

lemma outstanding_settled: "outstanding (Suc n) (handleRoute_settled c) = Some n"
  by (simp add: handleRoute_settled_def Let_def
      split: handler_outcome.splits thrown.splits option.splits)

lemma drain_shifted:
  "drain rs q li = (q', calls, threw, acts, li') \<Longrightarrow> shifted acts @ q' = q"
proof (induction rs q li arbitrary: q' calls threw acts li' rule: drain.induct)
  case (1 rs li)
  then show ?case by simp
next
  case (2 rs msg queue li)
  obtain cs th l1 where st: "start_handlers (all_routes rs) msg li = (cs, th, l1)"
    by (cases "start_handlers (all_routes rs) msg li")
  show ?case
  proof (cases "\<not> th \<and> cs = []")
    case True
    obtain q1 c1 t1 a1 l2 where d: "drain rs queue l1 = (q1, c1, t1, a1, l2)"
      by (cases "drain rs queue l1")
    have "shifted a1 @ q1 = queue"
      by (rule "2.IH" [OF refl st [symmetric] refl refl _ _ d]) (use True in simp_all)
    with "2.prems" st True d show ?thesis
      by (auto simp: shifted_append Let_def)
  next
    case False
    with "2.prems" st show ?thesis
      by (auto simp: shifted_calls Let_def split: if_splits)
  qed
qed

lemma drain_outstanding:
  "drain rs q li = (q', calls, threw, acts, li') \<Longrightarrow> outstanding 0 acts = Some (length calls)"
proof (induction rs q li arbitrary: q' calls threw acts li' rule: drain.induct)
  case (1 rs li)
  then show ?case by simp
next
  case (2 rs msg queue li)
  obtain cs th l1 where st: "start_handlers (all_routes rs) msg li = (cs, th, l1)"
    by (cases "start_handlers (all_routes rs) msg li")
  show ?case
  proof (cases "\<not> th \<and> cs = []")
    case True
    obtain q1 c1 t1 a1 l2 where d: "drain rs queue l1 = (q1, c1, t1, a1, l2)"
      by (cases "drain rs queue l1")
    have "outstanding 0 a1 = Some (length c1)"
      by (rule "2.IH" [OF refl st [symmetric] refl refl _ _ d]) (use True in simp_all)
    with "2.prems" st True d show ?thesis
      by (auto simp: Let_def outstanding_append)
  next
    case False
    with "2.prems" st show ?thesis
      by (auto simp: outstanding_calls Let_def split: if_splits)
  qed
qed

lemma processQueue_inv:
  assumes "awaited s = []" and "orphaned s = []" and "outstanding 0 (log s) = Some 0"
  shows "router_inv (processQueue s)"
    and "shifted (log (processQueue s)) @ messageQueue (processQueue s) = shifted (log s) @ messageQueue s"
proof -
  obtain q c t a l where d: "drain (routes s) (messageQueue s) (lastIndex s) = (q, c, t, a, l)"
    by (cases "drain (routes s) (messageQueue s) (lastIndex s)")
  from drain_outstanding [OF d] assms show "router_inv (processQueue s)"
    by (simp add: router_inv_def processQueue_def d outstanding_append)
  from drain_shifted [OF d] show
    "shifted (log (processQueue s)) @ messageQueue (processQueue s) = shifted (log s) @ messageQueue s"
    by (simp add: processQueue_def d shifted_append)
qed

lemma remove_nth_length: "k < length xs \<Longrightarrow> Suc (length (remove_nth k xs)) = length xs"
  by (simp add: remove_nth_def)

lemma router_step_inv:
  assumes "router_inv s"
  shows "router_inv (router_step x s)"
    and "shifted (log (router_step x s)) @ messageQueue (router_step x s)
           = shifted (log s) @ messageQueue s @ arrivals [x]"
proof -
  from assms have o: "outstanding 0 (log s) = Some (length (awaited s) + length (orphaned s))"
    and a: "awaited s \<noteq> [] \<longrightarrow> orphaned s = [] \<and> processing s"
    and p: "\<not> processing s \<longrightarrow> awaited s = [] \<and> orphaned s = []"
    by (simp_all add: router_inv_def)
  show "router_inv (router_step x s)"
  proof (cases x)
    case (AddRoute topic config)
    with o a p show ?thesis
      by (simp add: router_inv_def addRoute_def Let_def outstanding_append)
  next
    case (Message msg)
    show ?thesis
    proof (cases "processing s")
      case True
      with Message assms show ?thesis
        by (simp add: on_route_message_def router_inv_def)
    next
      case False
      with p o have "router_inv (processQueue (s\<lparr>messageQueue := messageQueue s @ [msg]\<rparr>))"
        by (intro processQueue_inv) simp_all
      with False Message show ?thesis
        by (simp add: on_route_message_def)
    qed
  next
    case (Settle k)
    show ?thesis
    proof (cases "k < length (awaited s)")
      case False
      with Settle assms show ?thesis by (simp add: settle_def)
    next
      case True
      then have ne: "awaited s \<noteq> []" by auto
      with a have orph: "orphaned s = []" and pr: "processing s" by simp_all
      define s1 where "s1 = s\<lparr>awaited := remove_nth k (awaited s),
                     log := log s @ handleRoute_settled (awaited s ! k)\<rparr>"
      from True obtain n where n: "length (awaited s) = Suc n" and n': "length (remove_nth k (awaited s)) = n"
        using remove_nth_length [OF True] by (cases "length (awaited s)") auto
      have o1: "outstanding 0 (log s1) = Some (length (awaited s1) + length (orphaned s1))"
        using o n n' orph by (simp add: s1_def outstanding_append outstanding_settled)
      show ?thesis
      proof (cases "awaited s1 = []")
        case True
        with o1 orph have "router_inv (processQueue s1)"
          by (intro processQueue_inv) (simp_all add: s1_def)
        with True \<open>k < length (awaited s)\<close> Settle show ?thesis
          by (simp add: settle_def Let_def s1_def)
      next
        case False
        with o1 orph pr have "router_inv s1"
          by (simp add: router_inv_def s1_def)
        with False \<open>k < length (awaited s)\<close> Settle show ?thesis
          by (simp add: settle_def Let_def s1_def)
      qed
    qed
  next
    case (SettleOrphan k)
    show ?thesis
    proof (cases "k < length (orphaned s)")
      case False
      with SettleOrphan assms show ?thesis by (simp add: settle_orphan_def)
    next
      case True
      then have ne: "orphaned s \<noteq> []" by auto
      with a p have aw: "awaited s = []" and pr: "processing s" by auto
      from True obtain n where n: "length (orphaned s) = Suc n" and n': "length (remove_nth k (orphaned s)) = n"
        using remove_nth_length [OF True] by (cases "length (orphaned s)") auto
      with o aw pr True SettleOrphan show ?thesis
        by (simp add: router_inv_def settle_orphan_def outstanding_append outstanding_settled)
    qed
  qed
  show "shifted (log (router_step x s)) @ messageQueue (router_step x s)
           = shifted (log s) @ messageQueue s @ arrivals [x]"
  proof (cases x)
    case (AddRoute topic config)
    then show ?thesis by (simp add: addRoute_def Let_def shifted_append)
  next
    case (Message msg)
    show ?thesis
    proof (cases "processing s")
      case True
      with Message show ?thesis by (simp add: on_route_message_def)
    next
      case False
      with p o have "shifted (log (processQueue (s\<lparr>messageQueue := messageQueue s @ [msg]\<rparr>)))
          @ messageQueue (processQueue (s\<lparr>messageQueue := messageQueue s @ [msg]\<rparr>))
        = shifted (log (s\<lparr>messageQueue := messageQueue s @ [msg]\<rparr>))
          @ messageQueue (s\<lparr>messageQueue := messageQueue s @ [msg]\<rparr>)"
        by (intro processQueue_inv) simp_all
      with False Message show ?thesis
        by (simp add: on_route_message_def)
    qed
  next
    case (Settle k)
    show ?thesis
    proof (cases "k < length (awaited s)")
      case False
      with Settle show ?thesis by (simp add: settle_def)
    next
      case True
      then have ne: "awaited s \<noteq> []" by auto
      with a have orph: "orphaned s = []" by simp
      define s1 where "s1 = s\<lparr>awaited := remove_nth k (awaited s),
                     log := log s @ handleRoute_settled (awaited s ! k)\<rparr>"
      from True obtain n where n: "length (awaited s) = Suc n" and n': "length (remove_nth k (awaited s)) = n"
        using remove_nth_length [OF True] by (cases "length (awaited s)") auto
      have o1: "outstanding 0 (log s1) = Some (length (awaited s1) + length (orphaned s1))"
        using o n n' orph by (simp add: s1_def outstanding_append outstanding_settled)
      have sh: "shifted (log s1) @ messageQueue s1 = shifted (log s) @ messageQueue s"
        by (simp add: s1_def shifted_append shifted_settled)
      show ?thesis
      proof (cases "awaited s1 = []")
        case True
        with o1 orph have "shifted (log (processQueue s1)) @ messageQueue (processQueue s1)
            = shifted (log s1) @ messageQueue s1"
          by (intro processQueue_inv) (simp_all add: s1_def)
        with True \<open>k < length (awaited s)\<close> Settle sh show ?thesis
          by (simp add: settle_def Let_def s1_def)
      next
        case False
        with \<open>k < length (awaited s)\<close> Settle sh show ?thesis
          by (simp add: settle_def Let_def s1_def)
      qed
    qed
  next
    case (SettleOrphan k)
    then show ?thesis
      by (simp add: settle_orphan_def shifted_append shifted_settled)
  qed
qed

lemma router_run_inv:
  "router_inv s \<Longrightarrow>
   router_inv (router_run xs s)
   \<and> shifted (log (router_run xs s)) @ messageQueue (router_run xs s)
       = shifted (log s) @ messageQueue s @ arrivals xs"
proof (induction xs arbitrary: s)
  case Nil
  then show ?case by simp
next
  case (Cons x xs)
  note st = router_step_inv [OF Cons.prems, of x]
  have ar: "arrivals (x # xs) = arrivals [x] @ arrivals xs"
    by (cases x) simp_all
  from Cons.IH [OF st(1)] st(2) ar show ?case by simp
qed

lemma router_inv_new: "router_inv new_router"
  by (simp add: router_inv_def new_router_def)

text \<open>
  On every run the messages taken from the queue, followed by those still queued, are
  the messages that arrived, in their order of arrival, and a message is taken only
  when no handler call is running.
\<close>

lemma drained_in_arrival_order:
  "shifted (log (router_run xs new_router)) @ messageQueue (router_run xs new_router) = arrivals xs
   \<and> outstanding 0 (log (router_run xs new_router))
       = Some (length (awaited (router_run xs new_router)) + length (orphaned (router_run xs new_router)))"
  using router_run_inv [OF router_inv_new, of xs] by (simp add: new_router_def router_inv_def)

text \<open>
  Once the drain loop has ended with an exception and nothing is left running, no step
  takes a message from the queue or calls a handler: arriving messages are queued and
  stay there.
\<close>

lemma wedged_step:
  assumes "wedged s"
  shows "wedged (router_step x s)"
    and "shifted (log (router_step x s)) = shifted (log s)"
    and "called (log (router_step x s)) = called (log s)"
    and "messageQueue (router_step x s) = messageQueue s @ arrivals [x]"
  using assms
  by (cases x; simp add: wedged_def addRoute_def on_route_message_def settle_def settle_orphan_def
      shifted_append called_append Let_def)+

lemma wedged_run:
  "wedged s \<Longrightarrow>
   wedged (router_run xs s)
   \<and> shifted (log (router_run xs s)) = shifted (log s)
   \<and> called (log (router_run xs s)) = called (log s)
   \<and> messageQueue (router_run xs s) = messageQueue s @ arrivals xs"
proof (induction xs arbitrary: s)
  case Nil
  then show ?case by simp
next
  case (Cons x xs)
  note st = wedged_step [OF Cons.prems, of x]
  have ar: "arrivals (x # xs) = arrivals [x] @ arrivals xs"
    by (cases x) simp_all
  from Cons.IH [OF st(1)] st(2,3,4) ar show ?case by simp
qed

text \<open>
  Without a \<open>null\<close> message the loop never ends with an exception: \<open>processing\<close> is set
  exactly while handler calls are awaited, and when none is, the queue is empty.
\<close>

lemma matchesPattern_not_null: "msg \<noteq> JNull \<Longrightarrow> fst (matchesPattern msg p li) \<noteq> None"
  by (cases p) (auto simp: Let_def split: option.splits)

lemma start_handlers_not_null:
  "msg \<noteq> JNull \<Longrightarrow> fst (snd (start_handlers rs msg li)) = False"
proof (induction rs arbitrary: li)
  case Nil
  then show ?case by simp
next
  case (Cons a rs)
  obtain topic route where a: "a = (topic, route)" by (cases a)
  obtain m l1 where mp: "matchesPattern msg (rc_pattern route) li = (m, l1)"
    by (cases "matchesPattern msg (rc_pattern route) li")
  with matchesPattern_not_null [OF Cons.prems, of "rc_pattern route" li]
  obtain b where b: "m = Some b" by auto
  from Cons.IH [OF Cons.prems, of l1] show ?case
    by (cases b) (simp_all add: a mp b case_prod_beta)
qed

lemma drain_not_null:
  "JNull \<notin> set q \<Longrightarrow> drain rs q li = (q', calls, threw, acts, li') \<Longrightarrow>
   \<not> threw \<and> set q' \<subseteq> set q \<and> (calls = [] \<longrightarrow> q' = [])"
proof (induction rs q li arbitrary: q' calls threw acts li' rule: drain.induct)
  case (1 rs li)
  then show ?case by simp
next
  case (2 rs msg queue li)
  obtain cs th l1 where st: "start_handlers (all_routes rs) msg li = (cs, th, l1)"
    by (cases "start_handlers (all_routes rs) msg li")
  from "2.prems"(1) have "msg \<noteq> JNull" by auto
  from start_handlers_not_null [OF this, of "all_routes rs" li] st have th: "\<not> th" by simp
  show ?case
  proof (cases "cs = []")
    case True
    obtain q1 c1 t1 a1 l2 where d: "drain rs queue l1 = (q1, c1, t1, a1, l2)"
      by (cases "drain rs queue l1")
    have "\<not> t1 \<and> set q1 \<subseteq> set queue \<and> (c1 = [] \<longrightarrow> q1 = [])"
      by (rule "2.IH" [OF refl st [symmetric] refl refl _ _ _ d]) (use True th "2.prems"(1) in simp_all)
    with "2.prems" st True th d show ?thesis
      by (auto simp: Let_def)
  next
    case False
    with "2.prems" st th show ?thesis
      by (auto simp: Let_def)
  qed
qed

lemma processQueue_not_null:
  assumes "awaited s = []" and "orphaned s = []" and "JNull \<notin> set (messageQueue s)"
  shows "never_stuck (processQueue s)"
proof -
  obtain q c t a l where d: "drain (routes s) (messageQueue s) (lastIndex s) = (q, c, t, a, l)"
    by (cases "drain (routes s) (messageQueue s) (lastIndex s)")
  from drain_not_null [OF assms(3) d] assms show ?thesis
    by (auto simp: never_stuck_def processQueue_def d)
qed

lemma never_stuck_step:
  assumes "never_stuck s" and "JNull \<notin> set (arrivals [x])"
  shows "never_stuck (router_step x s)"
proof (cases x)
  case (AddRoute topic config)
  with assms show ?thesis by (simp add: never_stuck_def addRoute_def Let_def)
next
  case (Message msg)
  with assms(2) have n: "msg \<noteq> JNull" by auto
  show ?thesis
  proof (cases "processing s")
    case True
    with Message assms(1) n show ?thesis
      by (auto simp: on_route_message_def never_stuck_def)
  next
    case False
    with assms(1) n have "never_stuck (processQueue (s\<lparr>messageQueue := messageQueue s @ [msg]\<rparr>))"
      by (intro processQueue_not_null) (auto simp: never_stuck_def)
    with False Message show ?thesis by (simp add: on_route_message_def)
  qed
next
  case (Settle k)
  show ?thesis
  proof (cases "k < length (awaited s)")
    case False
    with Settle assms show ?thesis by (simp add: settle_def)
  next
    case True
    define s1 where "s1 = s\<lparr>awaited := remove_nth k (awaited s),
                   log := log s @ handleRoute_settled (awaited s ! k)\<rparr>"
    show ?thesis
    proof (cases "awaited s1 = []")
      case e: True
      with assms(1) have "never_stuck (processQueue s1)"
        by (intro processQueue_not_null) (auto simp: never_stuck_def s1_def)
      with e True Settle show ?thesis
        by (simp add: settle_def Let_def s1_def)
    next
      case ne: False
      from True have "awaited s \<noteq> []" by auto
      with assms(1) ne have "never_stuck s1"
        by (auto simp: never_stuck_def s1_def)
      with ne True Settle show ?thesis
        by (simp add: settle_def Let_def s1_def)
    qed
  qed
next
  case (SettleOrphan k)
  with assms show ?thesis by (simp add: settle_orphan_def never_stuck_def)
qed

lemma never_stuck_run:
  "never_stuck s \<Longrightarrow> JNull \<notin> set (arrivals xs) \<Longrightarrow> never_stuck (router_run xs s)"
proof (induction xs arbitrary: s)
  case Nil
  then show ?case by simp
next
  case (Cons x xs)
  have ar: "arrivals (x # xs) = arrivals [x] @ arrivals xs"
    by (cases x) simp_all
  with Cons.prems have "never_stuck (router_step x s)"
    by (intro never_stuck_step) auto
  with Cons.IH [of "router_step x s"] Cons.prems(2) ar show ?case by auto
qed

lemma never_stuck_new: "never_stuck new_router"
  by (simp add: never_stuck_def new_router_def)

lemma router_run_without_null:
  "JNull \<notin> set (arrivals xs) \<Longrightarrow> never_stuck (router_run xs new_router)"
  by (rule never_stuck_run [OF never_stuck_new])

lemma null_arrived_state:
  "log null_arrived
     = [RouteAdded (str ''jobs'') (str ''job''), RouteAdded (str ''audit'') (str ''/^null$/''),
        Shift JNull]"
  "messageQueue null_arrived = []"
  "processing null_arrived"
  "awaited null_arrived = []"
  "orphaned null_arrived = []"
  "routes null_arrived = [(str ''jobs'', [job_route]), (str ''audit'', [audit_route])]"
  by (simp_all add: null_arrived_def new_router_def addRoute_def on_route_message_def
      processQueue_def all_routes_def priority_or_0_def Let_def job_route_def audit_route_def)

text \<open>
  A handler that rejects with \<open>undefined\<close> or \<open>null\<close>: no \<open>route:error\<close> is emitted, and
  the promise of \<open>handleRoute\<close> rejects.
\<close>

lemma rejection_with_undefined_emits_no_route_error:
  "handleRoute_settled (str ''jobs'', rejecting_route, job 1) = [Unhandled (str ''jobs'') (str ''job'')]"
  by (simp add: handleRoute_settled_def rejecting_route_def)

text \<open>
  C5 fails on a \<open>null\<close> message. The router has the route \<open>jobs\<close> with a string pattern
  and then the route \<open>audit\<close>, whose \<open>RegExp\<close> matches the text of \<open>null\<close>. When a \<open>null\<close>
  message arrives it is taken from the queue, \<open>msg.topic\<close> throws while the first
  pattern is tried, and the \<open>audit\<close> handler is not called although its pattern matches.
  \<open>processing\<close> stays \<open>true\<close> with nothing awaited, and in every later run (routes
  added, messages arriving, calls settling) no message is taken from the queue and no
  handler is called: every message that arrives later stays queued.
\<close>

theorem null_message_stops_the_queue:
  "fst (matchesPattern JNull (rc_pattern audit_route) (lastIndex null_arrived)) = Some True
   \<and> log null_arrived
       = [RouteAdded (str ''jobs'') (str ''job''), RouteAdded (str ''audit'') (str ''/^null$/''),
          Shift JNull]
   \<and> processing null_arrived \<and> awaited null_arrived = [] \<and> orphaned null_arrived = []
   \<and> shifted (log (router_run later null_arrived)) = [JNull]
   \<and> called (log (router_run later null_arrived)) = []
   \<and> messageQueue (router_run later null_arrived) = arrivals later
   \<and> processing (router_run later null_arrived)
   \<and> awaited (router_run later null_arrived) = []"
proof -
  have m: "fst (matchesPattern JNull (rc_pattern audit_route) (lastIndex null_arrived)) = Some True"
    by (simp add: audit_route_def)
  have w: "wedged null_arrived"
    by (simp add: wedged_def null_arrived_state)
  from wedged_run [OF w, of later] m show ?thesis
    by (simp add: null_arrived_state wedged_def)
qed

theorem null_message_stops_the_queue_witness:
  "messageQueue (router_run [Message (job 1), Settle 0, Message (job 2)] null_arrived) = [job 1, job 2]
   \<and> called (log (router_run [Message (job 1), Settle 0, Message (job 2)] null_arrived)) = []
   \<and> fst (matchesPattern (job 1) (rc_pattern job_route) []) = Some True"
proof -
  have "fst (matchesPattern (job 1) (rc_pattern job_route) []) = Some True"
    by (simp add: job_route_def job_def)
  with null_message_stops_the_queue [of "[Message (job 1), Settle 0, Message (job 2)]"]
  show ?thesis by simp
qed

text \<open>
  A \<open>RegExp\<close> with the \<open>g\<close> flag keeps \<open>lastIndex\<close> between messages: of two equal
  messages that contain \<open>job\<close> the first is handled and the second is not.
\<close>

lemma job_text: "stringify (job 1) = str ''{\"topic\":\"job\",\"n\":1}''"
  by (simp add: job_def quote_def is_high_surrogate_def is_low_surrogate_def)

lemma global_regexp_skips_second_message:
  "called (log (router_run [AddRoute (str ''jobs'') global_route, Message (job 1), Settle 0,
                            Message (job 1)] new_router))
     = [(str ''jobs'', job 1)]
   \<and> shifted (log (router_run [AddRoute (str ''jobs'') global_route, Message (job 1), Settle 0,
                               Message (job 1)] new_router))
     = [job 1, job 1]"
  by (simp add: new_router_def addRoute_def on_route_message_def processQueue_def settle_def
      all_routes_def priority_or_0_def Let_def global_route_def job_text literal_matcher_def
      lastIndex_of_def remove_nth_def handleRoute_settled_def call_action_def upt_rec)

section \<open>Proofs: request and reply\<close>

lemma set_remove_nth: "set (remove_nth k xs) \<subseteq> set xs"
  unfolding remove_nth_def using set_take_subset [of k xs] set_drop_subset [of "Suc k" xs] by auto

lemma req_ok_timeout:
  "req_ok r \<Longrightarrow> timer_armed r \<Longrightarrow>
   req_ok (settle_promise x (r\<lparr>timer_armed := False, listening := False\<rparr>))"
  by (simp add: req_ok_def settle_promise_def)

lemma req_ok_reply:
  "req_ok r \<Longrightarrow> listening r \<Longrightarrow>
   req_ok (settle_promise x (r\<lparr>listening := False, timer_armed := False\<rparr>))"
  by (auto simp: req_ok_def settle_promise_def split: option.splits)

lemma due_ok_requests_update:
  assumes "due_ok s d" and "i < length (requests s)"
    and "rq_topic r = rq_topic (requests s ! i)" and "rq_payload r = rq_payload (requests s ! i)"
  shows "due_ok (s\<lparr>requests := (requests s)[i := r]\<rparr>) d"
  using assms by (cases "fst d = i") (auto simp: due_ok_def)

lemma settle_promise_keeps:
  "rq_topic (settle_promise x r) = rq_topic r" "rq_payload (settle_promise x r) = rq_payload r"
  by (simp_all add: settle_promise_def)

lemma timer_fires_inv: "bus_inv s \<Longrightarrow> bus_inv (timer_fires i s)"
proof -
  assume inv: "bus_inv s"
  show ?thesis
  proof (cases "i < length (requests s) \<and> timer_armed (requests s ! i)")
    case False
    with inv show ?thesis by (auto simp: timer_fires_def)
  next
    case True
    define r where "r = settle_promise (Rejected (str ''Request timeout''))
                          ((requests s ! i)\<lparr>timer_armed := False, listening := False\<rparr>)"
    from inv True have "req_ok (requests s ! i)" by (simp add: bus_inv_def)
    with True have ok: "req_ok r" unfolding r_def by (simp add: req_ok_timeout)
    have t: "timer_fires i s = s\<lparr>requests := (requests s)[i := r]\<rparr>"
      using True by (simp add: timer_fires_def r_def)
    have 1: "\<forall>q\<in>set ((requests s)[i := r]). req_ok q"
      using inv ok set_update_subset_insert [of "requests s" i r] by (auto simp: bus_inv_def)
    have 2: "\<forall>d\<in>set (replies_due s). due_ok (s\<lparr>requests := (requests s)[i := r]\<rparr>) d"
      using inv True by (auto simp: bus_inv_def r_def settle_promise_keeps intro!: due_ok_requests_update)
    from 1 2 show ?thesis unfolding t bus_inv_def by simp
  qed
qed

lemma deliver_reply_inv:
  assumes "\<forall>r\<in>set (requests s). req_ok r" and "\<forall>d\<in>set (replies_due s). due_ok s d"
  shows "bus_inv (deliver_reply i h s)"
proof (cases "i < length (requests s) \<and> listening (requests s ! i)")
  case False
  with assms show ?thesis by (auto simp: deliver_reply_def bus_inv_def)
next
  case True
  define r where "r = settle_promise (Fulfilled (reply_result h))
                          ((requests s ! i)\<lparr>listening := False, timer_armed := False\<rparr>)"
  from assms True have "req_ok (requests s ! i)" by simp
  with True have ok: "req_ok r" unfolding r_def by (simp add: req_ok_reply)
  have t: "deliver_reply i h s = s\<lparr>requests := (requests s)[i := r]\<rparr>"
    using True by (simp add: deliver_reply_def r_def)
  have 1: "\<forall>q\<in>set ((requests s)[i := r]). req_ok q"
    using assms ok set_update_subset_insert [of "requests s" i r] by auto
  have 2: "\<forall>d\<in>set (replies_due s). due_ok (s\<lparr>requests := (requests s)[i := r]\<rparr>) d"
    using assms True by (auto simp: r_def settle_promise_keeps intro!: due_ok_requests_update)
  from 1 2 show ?thesis unfolding t bus_inv_def by simp
qed

lemma due_ok_drop:
  "due_ok s d \<Longrightarrow> due_ok (s\<lparr>replies_due := ds\<rparr>) d"
  by (simp add: due_ok_def)

lemma reply_arrives_inv: "bus_inv s \<Longrightarrow> bus_inv (reply_arrives k s)"
proof -
  assume inv: "bus_inv s"
  show ?thesis
  proof (cases "k < length (replies_due s)")
    case False
    with inv show ?thesis by (simp add: reply_arrives_def)
  next
    case True
    have "bus_inv (deliver_reply (fst (replies_due s ! k)) (snd (replies_due s ! k))
            (s\<lparr>replies_due := remove_nth k (replies_due s)\<rparr>))"
    proof (rule deliver_reply_inv)
      show "\<forall>r\<in>set (requests (s\<lparr>replies_due := remove_nth k (replies_due s)\<rparr>)). req_ok r"
        using inv by (simp add: bus_inv_def)
      show "\<forall>d\<in>set (replies_due (s\<lparr>replies_due := remove_nth k (replies_due s)\<rparr>)).
              due_ok (s\<lparr>replies_due := remove_nth k (replies_due s)\<rparr>) d"
        using inv set_remove_nth [of k "replies_due s"] by (auto simp: bus_inv_def due_ok_drop)
    qed
    with True show ?thesis by (simp add: reply_arrives_def)
  qed
qed

lemma onRequest_inv: "bus_inv s \<Longrightarrow> bus_inv (onRequest topic handler s)"
  by (auto simp: bus_inv_def onRequest_def due_ok_def)

lemma request_inv: "bus_inv s \<Longrightarrow> bus_inv (snd (request topic payload s))"
proof -
  assume inv: "bus_inv s"
  have 1: "\<forall>r\<in>set (requests (snd (request topic payload s))). req_ok r"
    using inv by (auto simp: bus_inv_def request_def Let_def req_ok_def)
  have 2: "due_ok (snd (request topic payload s)) d" if "d \<in> set (replies_due s)" for d
  proof -
    from inv that have "due_ok s d" by (simp add: bus_inv_def)
    then show ?thesis
      by (auto simp: due_ok_def request_def Let_def nth_append)
  qed
  have 3: "due_ok (snd (request topic payload s)) d"
    if "d \<in> set (map (\<lambda>th. (length (requests s), snd th payload))
                    (filter (\<lambda>th. fst th = topic) (responders s)))" for d
    using that by (auto simp: due_ok_def request_def Let_def nth_append)
  have 4: "set (replies_due (snd (request topic payload s)))
      = set (replies_due s) \<union> set (map (\<lambda>th. (length (requests s), snd th payload))
                    (filter (\<lambda>th. fst th = topic) (responders s)))"
    by (simp add: request_def Let_def)
  show ?thesis
    unfolding bus_inv_def
  proof (intro conjI ballI)
    fix r assume "r \<in> set (requests (snd (request topic payload s)))"
    with 1 show "req_ok r" by simp
  next
    fix d assume "d \<in> set (replies_due (snd (request topic payload s)))"
    then have "d \<in> set (replies_due s) \<or> d \<in> set (map (\<lambda>th. (length (requests s), snd th payload))
                    (filter (\<lambda>th. fst th = topic) (responders s)))"
      unfolding 4 by simp
    with 2 3 show "due_ok (snd (request topic payload s)) d" by blast
  qed
qed

lemma bus_step_inv: "bus_inv s \<Longrightarrow> bus_inv (bus_step x s)"
  by (cases x) (simp_all add: onRequest_inv request_inv reply_arrives_inv timer_fires_inv)

lemma bus_run_inv: "bus_inv s \<Longrightarrow> bus_inv (bus_run xs s)"
  by (induction xs arbitrary: s) (simp_all add: bus_step_inv)

lemma bus_inv_new: "bus_inv new_bus"
  by (simp add: bus_inv_def new_bus_def)

lemma settled_step: "settled_as i x s \<Longrightarrow> settled_as i x (bus_step y s)"
proof (cases y)
  case (OnRequest topic handler)
  assume "settled_as i x s"
  with OnRequest show ?thesis by (simp add: settled_as_def onRequest_def)
next
  case (Request topic payload)
  assume "settled_as i x s"
  with Request show ?thesis by (simp add: settled_as_def request_def Let_def nth_append)
next
  case (ReplyArrives k)
  assume "settled_as i x s"
  with ReplyArrives show ?thesis
    by (cases "fst (replies_due s ! k) = i")
       (auto simp: settled_as_def reply_arrives_def deliver_reply_def)
next
  case (TimerFires j)
  assume "settled_as i x s"
  with TimerFires show ?thesis
    by (cases "j = i") (auto simp: settled_as_def timer_fires_def)
qed

lemma settled_run: "settled_as i x s \<Longrightarrow> settled_as i x (bus_run ys s)"
  by (induction ys arbitrary: s) (simp_all add: settled_step)

lemma reply_settles:
  assumes "bus_inv s" and "k < length (replies_due s)" and "replies_due s ! k = (i, h)"
    and "promise (requests s ! i) = None"
  shows "settled_as i (Fulfilled (reply_result h)) (reply_arrives k s)"
proof -
  from assms(1,2,3) have d: "due_ok s (i, h)"
    unfolding bus_inv_def by (metis nth_mem)
  then have i: "i < length (requests s)" by (simp add: due_ok_def)
  with assms(1) have "req_ok (requests s ! i)" by (simp add: bus_inv_def)
  with assms(4) have "listening (requests s ! i)" and "settle_calls (requests s ! i) = 0"
    by (simp_all add: req_ok_def)
  with assms(2,3,4) i show ?thesis
    by (simp add: settled_as_def reply_arrives_def deliver_reply_def settle_promise_def)
qed

lemma request_takes:
  "(topic, f) \<in> set (responders s) \<Longrightarrow>
   (fst (request topic payload s), f payload) \<in> set (replies_due (snd (request topic payload s)))"
  by (force simp: request_def Let_def)

lemma settle_calls_le_1:
  assumes "bus_inv s" and "j < length (requests s)"
  shows "settle_calls (requests s ! j) \<le> 1 \<and> (settle_calls (requests s ! j) = 1) = (promise (requests s ! j) \<noteq> None)"
proof -
  from assms have "req_ok (requests s ! j)" by (simp add: bus_inv_def)
  then show ?thesis by (simp add: req_ok_def)
qed

text \<open>
  C2. In every run of the router's node, when the reply of an \<open>onRequest\<close> listener
  whose handler returned \<open>r\<close> reaches a request whose promise is still pending: the
  handler is one registered for the request's topic and \<open>r\<close> is what it returned for
  the request's payload; the promise is fulfilled with \<open>r\<close>; and whatever happens
  afterwards (the timer, further replies, other requests) the promise stays fulfilled
  with \<open>r\<close> and \<open>resolve\<close> or \<open>reject\<close> has been called exactly once. No promise ever
  sees a second call. Every handler registered for the topic of a request is called with
  its payload.
\<close>

theorem request_resolves_once_with_handler_value:
  assumes "k < length (replies_due (bus_run ops new_bus))"
    and "replies_due (bus_run ops new_bus) ! k = (i, Returns r)"
    and "promise (requests (bus_run ops new_bus) ! i) = None"
  shows "(\<exists>f. (rq_topic (requests (bus_run ops new_bus) ! i), f) \<in> set (responders (bus_run ops new_bus))
            \<and> f (rq_payload (requests (bus_run ops new_bus) ! i)) = Returns r)
     \<and> (\<forall>ops'. promise (requests (bus_run ops' (reply_arrives k (bus_run ops new_bus))) ! i) = Some (Fulfilled r)
                \<and> settle_calls (requests (bus_run ops' (reply_arrives k (bus_run ops new_bus))) ! i) = 1)
     \<and> (\<forall>j<length (requests (bus_run ops new_bus)).
            settle_calls (requests (bus_run ops new_bus) ! j) \<le> 1
            \<and> (settle_calls (requests (bus_run ops new_bus) ! j) = 1)
                = (promise (requests (bus_run ops new_bus) ! j) \<noteq> None))
     \<and> ((topic, f) \<in> set (responders s0) \<longrightarrow>
           (fst (request topic payload s0), f payload) \<in> set (replies_due (snd (request topic payload s0))))"
proof -
  define s where "s = bus_run ops new_bus"
  have inv: "bus_inv s"
    unfolding s_def by (rule bus_run_inv [OF bus_inv_new])
  from inv assms(1,2) have "due_ok s (i, Returns r)"
    unfolding bus_inv_def s_def by (metis nth_mem)
  then have 1: "\<exists>f. (rq_topic (requests s ! i), f) \<in> set (responders s)
            \<and> f (rq_payload (requests s ! i)) = Returns r"
    by (auto simp: due_ok_def)
  from reply_settles [OF inv, of k i "Returns r"] assms
  have "settled_as i (Fulfilled r) (reply_arrives k s)"
    by (simp add: s_def reply_result_def)
  then have "settled_as i (Fulfilled r) (bus_run ops' (reply_arrives k s))" for ops'
    by (rule settled_run)
  then have 2: "\<forall>ops'. promise (requests (bus_run ops' (reply_arrives k s)) ! i) = Some (Fulfilled r)
                \<and> settle_calls (requests (bus_run ops' (reply_arrives k s)) ! i) = 1"
    by (simp add: settled_as_def)
  have 3: "\<forall>j<length (requests s). settle_calls (requests s ! j) \<le> 1
            \<and> (settle_calls (requests s ! j) = 1) = (promise (requests s ! j) \<noteq> None)"
    using settle_calls_le_1 [OF inv] by blast
  from 1 2 3 request_takes show ?thesis
    unfolding s_def by blast
qed

lemma sum_requested_state:
  "replies_due (bus_run sum_requested new_bus) = [(0, Returns (Some (JNum 3)))]"
  "promise (requests (bus_run sum_requested new_bus) ! 0) = None"
  by (simp_all add: sum_requested_def new_bus_def onRequest_def request_def sum_handler_def Let_def)

theorem request_resolves_once_with_handler_value_witness:
  "replies_due (bus_run sum_requested new_bus) ! 0 = (0, sum_handler (JArr [JNum 1, JNum 2]))
   \<and> promise (requests (bus_run sum_requested new_bus) ! 0) = None
   \<and> promise (requests (bus_run [TimerFires 0] (reply_arrives 0 (bus_run sum_requested new_bus))) ! 0)
       = Some (Fulfilled (Some (JNum 3)))
   \<and> settle_calls (requests (bus_run [TimerFires 0] (reply_arrives 0 (bus_run sum_requested new_bus))) ! 0) = 1"
proof -
  have a: "0 < length (replies_due (bus_run sum_requested new_bus))"
    by (simp add: sum_requested_state)
  have b: "replies_due (bus_run sum_requested new_bus) ! 0 = (0, Returns (Some (JNum 3)))"
    by (simp add: sum_requested_state)
  note t = request_resolves_once_with_handler_value [OF a b sum_requested_state(2)]
  then have "promise (requests (bus_run ops' (reply_arrives 0 (bus_run sum_requested new_bus))) ! 0)
       = Some (Fulfilled (Some (JNum 3)))
     \<and> settle_calls (requests (bus_run ops' (reply_arrives 0 (bus_run sum_requested new_bus))) ! 0) = 1" for ops'
    by blast
  from this [of "[TimerFires 0]"] b sum_requested_state(2) show ?thesis
    by (simp add: sum_handler_def)
qed

end
